theory Spec2Isabelle
  imports Main "HOL-Library.Monad_Syntax"
begin

section \<open>JSON documents\<close>

text \<open>
  Request bodies, query-string values and the \<open>metadata\<close> column are JSON values.
  A number is kept as a decimal mantissa and exponent (\<open>JNum m e\<close> is \<open>m * 10^e\<close>); an
  object is its member list in source order, a later member overriding an earlier one
  of the same key. A string read by the parser keeps the characters between its quotes
  as they are spelt, escapes included. One parser stands for \<open>JSON.parse\<close> and for the
  store's \<open>jsonb\<close> input: both read this grammar.
\<close>

datatype json =
    JNull
  | JBool bool
  | JNum int int
  | JStr string
  | JArr "json list"
  | JObj "(string \<times> json) list"

datatype token =
    T_LBrace | T_RBrace | T_LBracket | T_RBracket | T_Colon | T_Comma
  | T_String string | T_Number int int | T_True | T_False | T_Null

definition is_ws :: "char \<Rightarrow> bool" where
  "is_ws c = (c \<in> set [CHR '' '', CHR 0x09, CHR 0x0A, CHR 0x0D])"

definition is_digit :: "char \<Rightarrow> bool" where
  "is_digit c = (c \<in> set ''0123456789'')"

definition is_hex :: "char \<Rightarrow> bool" where
  "is_hex c = (c \<in> set ''0123456789abcdefABCDEF'')"

definition digits_value :: "string \<Rightarrow> nat" where
  "digits_value ds = foldl (\<lambda>a d. 10 * a + (of_char d - 48)) 0 ds"

definition is_simple_escape :: "char \<Rightarrow> bool" where
  "is_simple_escape e = (e \<in> set [CHR 0x22, CHR 0x5C, CHR ''/'', CHR ''b'', CHR ''f'', CHR ''n'', CHR ''r'', CHR ''t''])"

fun lex_string :: "string \<Rightarrow> (string \<times> string) option" where
  "lex_string [] = None"
| "lex_string (c # cs) =
     (if c = CHR 0x22 then Some ([], cs)
      else if c = CHR 0x5C then
        (case cs of
           [] \<Rightarrow> None
         | e # cs' \<Rightarrow>
             if is_simple_escape e
             then map_option (\<lambda>(s, r). (c # e # s, r)) (lex_string cs')
             else if e = CHR ''u'' \<and> 4 \<le> length cs' \<and> list_all is_hex (take 4 cs')
             then map_option (\<lambda>(s, r). (c # e # take 4 cs' @ s, r)) (lex_string (drop 4 cs'))
             else None)
      else if (of_char c :: nat) < 32 then None
      else map_option (\<lambda>(s, r). (c # s, r)) (lex_string cs))"

definition skip_char :: "(char \<Rightarrow> bool) \<Rightarrow> string \<Rightarrow> string" where
  "skip_char P s = (case s of [] \<Rightarrow> [] | c # cs \<Rightarrow> if P c then cs else s)"

definition starts_with :: "(char \<Rightarrow> bool) \<Rightarrow> string \<Rightarrow> bool" where
  "starts_with P s = (case s of [] \<Rightarrow> False | c # cs \<Rightarrow> P c)"

definition lex_fraction :: "string \<Rightarrow> (string \<times> string) option" where
  "lex_fraction s =
     (if starts_with (\<lambda>c. c = CHR ''.'') s
      then (if takeWhile is_digit (tl s) = [] then None
            else Some (takeWhile is_digit (tl s), dropWhile is_digit (tl s)))
      else Some ([], s))"

definition lex_exponent :: "string \<Rightarrow> (int \<times> string) option" where
  "lex_exponent s =
     (if starts_with (\<lambda>c. c = CHR ''e'' \<or> c = CHR ''E'') s
      then (let s1 = skip_char (\<lambda>c. c = CHR ''-'' \<or> c = CHR ''+'') (tl s);
                e = int (digits_value (takeWhile is_digit s1))
            in if takeWhile is_digit s1 = [] then None
               else Some (if starts_with (\<lambda>c. c = CHR ''-'') (tl s) then - e else e,
                          dropWhile is_digit s1))
      else Some (0, s))"

definition lex_number :: "string \<Rightarrow> (token \<times> string) option" where
  "lex_number s =
     (let s1 = skip_char (\<lambda>c. c = CHR ''-'') s;
          ds = takeWhile is_digit s1
      in if ds = [] \<or> (hd ds = CHR ''0'' \<and> 1 < length ds) then None
         else (case lex_fraction (dropWhile is_digit s1) of
                 None \<Rightarrow> None
               | Some (fs, r) \<Rightarrow>
                   (case lex_exponent r of
                      None \<Rightarrow> None
                    | Some (e, r') \<Rightarrow>
                        Some (T_Number
                                (if starts_with (\<lambda>c. c = CHR ''-'') s
                                 then - int (digits_value (ds @ fs)) else int (digits_value (ds @ fs)))
                                (e - int (length fs)), r'))))"

definition lex_word :: "string \<Rightarrow> string \<Rightarrow> token \<Rightarrow> (token \<times> string) option" where
  "lex_word w s t = (if take (length w) s = w then Some (t, drop (length w) s) else None)"

definition lex_token :: "string \<Rightarrow> (token \<times> string) option" where
  "lex_token s =
     (case s of
        [] \<Rightarrow> None
      | c # cs \<Rightarrow>
          if c = CHR ''{'' then Some (T_LBrace, cs)
          else if c = CHR ''}'' then Some (T_RBrace, cs)
          else if c = CHR ''['' then Some (T_LBracket, cs)
          else if c = CHR '']'' then Some (T_RBracket, cs)
          else if c = CHR '':'' then Some (T_Colon, cs)
          else if c = CHR '','' then Some (T_Comma, cs)
          else if c = CHR 0x22 then map_option (\<lambda>(b, r). (T_String b, r)) (lex_string cs)
          else if c = CHR ''-'' \<or> is_digit c then lex_number s
          else if c = CHR ''t'' then lex_word ''true'' s T_True
          else if c = CHR ''f'' then lex_word ''false'' s T_False
          else if c = CHR ''n'' then lex_word ''null'' s T_Null
          else None)"

lemma lex_string_length: "lex_string s = Some (t, r) \<Longrightarrow> length r < length s"
proof (induction s arbitrary: t r rule: lex_string.induct)
  case 1
  then show ?case by simp
next
  case (2 c cs)
  show ?case
  proof (cases "c = CHR 0x22")
    case True
    with 2 show ?thesis by simp
  next
    case nq: False
    show ?thesis
    proof (cases "c = CHR 0x5C")
      case True
      then obtain e cs' where cs: "cs = e # cs'"
        using "2.prems" nq by (cases cs) auto
      show ?thesis
      proof (cases "is_simple_escape e")
        case se: True
        then obtain s' where "lex_string cs' = Some (s', r)"
          using "2.prems" nq True cs by auto
        then have "length r < length cs'"
          using "2.IH"(1)[OF nq True cs se] by blast
        then show ?thesis using cs by simp
      next
        case nse: False
        then have u: "e = CHR ''u'' \<and> 4 \<le> length cs' \<and> list_all is_hex (take 4 cs')"
          using "2.prems" nq True cs by (auto split: if_splits)
        then obtain s' where "lex_string (drop 4 cs') = Some (s', r)"
          using "2.prems" nq True cs nse by auto
        then have "length r < length (drop 4 cs')"
          using "2.IH"(2)[OF nq True cs nse u] by blast
        then show ?thesis using cs by simp
      qed
    next
      case nb: False
      then have nc: "\<not> (of_char c :: nat) < 32"
        using "2.prems" nq by (auto split: if_splits)
      then obtain s' where "lex_string cs = Some (s', r)"
        using "2.prems" nq nb by auto
      then have "length r < length cs"
        using "2.IH"(3)[OF nq nb nc] by blast
      then show ?thesis by simp
    qed
  qed
qed

lemma length_dropWhile_le': "length (dropWhile P xs) \<le> length xs"
  by (induction xs) auto

lemma length_dropWhile_less:
  "takeWhile P xs \<noteq> [] \<Longrightarrow> length (dropWhile P xs) < length xs"
  by (induction xs) (auto simp: le_imp_less_Suc length_dropWhile_le' split: if_splits)

lemma skip_char_length: "length (skip_char P s) \<le> length s"
  by (simp add: skip_char_def split: list.splits)

lemma lex_fraction_length: "lex_fraction s = Some (fs, r) \<Longrightarrow> length r \<le> length s"
  using length_dropWhile_le'[of is_digit "tl s"]
  by (auto simp: lex_fraction_def split: if_splits)

lemma lex_exponent_length: "lex_exponent s = Some (e, r) \<Longrightarrow> length r \<le> length s"
proof -
  assume a: "lex_exponent s = Some (e, r)"
  have "length (dropWhile is_digit (skip_char (\<lambda>c. c = CHR ''-'' \<or> c = CHR ''+'') (tl s))) \<le> length s"
    using length_dropWhile_le'[of is_digit "skip_char (\<lambda>c. c = CHR ''-'' \<or> c = CHR ''+'') (tl s)"]
          skip_char_length[of "\<lambda>c. c = CHR ''-'' \<or> c = CHR ''+''" "tl s"]
    by simp
  then show ?thesis
    using a by (auto simp: lex_exponent_def Let_def split: if_splits)
qed

lemma lex_number_length:
  assumes "lex_number s = Some (t, r)"
  shows "length r < length s"
proof -
  let ?s1 = "skip_char (\<lambda>c. c = CHR ''-'') s"
  have ne: "takeWhile is_digit ?s1 \<noteq> []"
    using assms by (auto simp: lex_number_def Let_def split: if_splits)
  obtain fs r1 where f: "lex_fraction (dropWhile is_digit ?s1) = Some (fs, r1)"
    using assms ne by (auto simp: lex_number_def Let_def split: if_splits option.splits)
  obtain e where x: "lex_exponent r1 = Some (e, r)"
    using assms ne f by (auto simp: lex_number_def Let_def split: if_splits option.splits)
  have "length r \<le> length r1" using lex_exponent_length[OF x] .
  moreover have "length r1 \<le> length (dropWhile is_digit ?s1)" using lex_fraction_length[OF f] .
  moreover have "length (dropWhile is_digit ?s1) < length ?s1" using length_dropWhile_less[OF ne] .
  moreover have "length ?s1 \<le> length s" by (rule skip_char_length)
  ultimately show ?thesis by linarith
qed

lemma lex_word_length: "w \<noteq> [] \<Longrightarrow> s \<noteq> [] \<Longrightarrow> lex_word w s t = Some (t', r) \<Longrightarrow> length r < length s"
  by (auto simp: lex_word_def split: if_splits)

lemma lex_token_length:
  assumes "lex_token s = Some (t, r)"
  shows "length r < length s"
proof (cases s)
  case Nil
  with assms show ?thesis by (simp add: lex_token_def)
next
  case (Cons c cs)
  have w: "\<And>w t0. w \<noteq> [] \<Longrightarrow> lex_word w (c # cs) t0 = Some (t, r) \<Longrightarrow> length r < Suc (length cs)"
    using lex_word_length[of _ "c # cs"] by fastforce
  have str: "\<And>b. lex_string cs = Some (b, r) \<Longrightarrow> length r < Suc (length cs)"
    using lex_string_length by fastforce
  have num: "lex_number (c # cs) = Some (t, r) \<Longrightarrow> length r < Suc (length cs)"
    using lex_number_length by fastforce
  show ?thesis
    using assms w str num unfolding Cons
    by (auto simp: lex_token_def split: if_splits)
qed

function lex :: "string \<Rightarrow> token list option" where
  "lex [] = Some []"
| "lex (c # cs) =
     (if is_ws c then lex cs
      else (case lex_token (c # cs) of
              None \<Rightarrow> None
            | Some (t, r) \<Rightarrow> map_option (Cons t) (lex r)))"
  by pat_completeness auto
termination
proof (relation "measure length")
  show "wf (measure length)" by simp
next
  fix c :: char and cs
  show "(cs, c # cs) \<in> measure length" by simp
next
  fix c :: char and cs x2 x y
  assume "lex_token (c # cs) = Some x2" "(x, y) = x2"
  then have "lex_token (c # cs) = Some (x, y)" by simp
  then show "(y, c # cs) \<in> measure length"
    using lex_token_length by fastforce
qed

text \<open>
  The grammar of RFC 8259 by recursive descent; each function returns what it read and
  the tokens left. The tests \<open>length r' < length ts\<close> make the recursion visibly
  terminating; they are always true, as shown below.
\<close>

function parse_value :: "token list \<Rightarrow> (json \<times> token list) option"
  and parse_elements :: "token list \<Rightarrow> (json list \<times> token list) option"
  and parse_members :: "token list \<Rightarrow> ((string \<times> json) list \<times> token list) option"
where
  "parse_value ts =
     (case ts of
        [] \<Rightarrow> None
      | t # r \<Rightarrow>
          (case t of
             T_Null \<Rightarrow> Some (JNull, r)
           | T_True \<Rightarrow> Some (JBool True, r)
           | T_False \<Rightarrow> Some (JBool False, r)
           | T_Number m e \<Rightarrow> Some (JNum m e, r)
           | T_String s \<Rightarrow> Some (JStr s, r)
           | T_LBracket \<Rightarrow>
               (case r of
                  T_RBracket # r' \<Rightarrow> Some (JArr [], r')
                | _ \<Rightarrow> map_option (\<lambda>(xs, r'). (JArr xs, r')) (parse_elements r))
           | T_LBrace \<Rightarrow>
               (case r of
                  T_RBrace # r' \<Rightarrow> Some (JObj [], r')
                | _ \<Rightarrow> map_option (\<lambda>(kvs, r'). (JObj kvs, r')) (parse_members r))
           | _ \<Rightarrow> None))"
| "parse_elements ts =
     (case parse_value ts of
        None \<Rightarrow> None
      | Some (v, r) \<Rightarrow>
          (case r of
             T_Comma # r' \<Rightarrow>
               if length r' < length ts
               then map_option (\<lambda>(xs, r''). (v # xs, r'')) (parse_elements r')
               else None
           | T_RBracket # r' \<Rightarrow> Some ([v], r')
           | _ \<Rightarrow> None))"
| "parse_members ts =
     (case ts of
        T_String k # T_Colon # r \<Rightarrow>
          (case parse_value r of
             None \<Rightarrow> None
           | Some (v, r1) \<Rightarrow>
               (case r1 of
                  T_Comma # r2 \<Rightarrow>
                    if length r2 < length ts
                    then map_option (\<lambda>(kvs, r3). ((k, v) # kvs, r3)) (parse_members r2)
                    else None
                | T_RBrace # r2 \<Rightarrow> Some ([(k, v)], r2)
                | _ \<Rightarrow> None))
      | _ \<Rightarrow> None)"
  by pat_completeness auto
termination
  by (relation "measure (\<lambda>x. case x of Inl ts \<Rightarrow> 2 * length ts
                                   | Inr (Inl ts) \<Rightarrow> 2 * length ts + 1
                                   | Inr (Inr ts) \<Rightarrow> 2 * length ts + 1)") auto

definition json_parse :: "string \<Rightarrow> json option" where
  "json_parse s =
     (case lex s of
        None \<Rightarrow> None
      | Some ts \<Rightarrow>
          (case parse_value ts of
             Some (v, []) \<Rightarrow> Some v
           | _ \<Rightarrow> None))"

definition object_field :: "(string \<times> json) list \<Rightarrow> string \<Rightarrow> json option" where
  "object_field kvs k = map_of (rev kvs) k"

definition scalar_eq :: "json \<Rightarrow> json \<Rightarrow> bool" where
  "scalar_eq a b =
     (case (a, b) of
        (JNull, JNull) \<Rightarrow> True
      | (JBool x, JBool y) \<Rightarrow> x = y
      | (JStr x, JStr y) \<Rightarrow> x = y
      | (JNum m e, JNum m' e') \<Rightarrow>
          m * 10 ^ nat (e - min e e') = m' * 10 ^ nat (e' - min e e')
      | _ \<Rightarrow> False)"

fun contained_in :: "json \<Rightarrow> json \<Rightarrow> bool" where
  "contained_in (JObj bkvs) a =
     (case a of
        JObj akvs \<Rightarrow>
          list_all (\<lambda>(k, b). case object_field akvs k of
                                 None \<Rightarrow> False
                               | Some a' \<Rightarrow> contained_in b a') bkvs
      | _ \<Rightarrow> False)"
| "contained_in (JArr bs) a =
     (case a of
        JArr as \<Rightarrow> list_all (\<lambda>b. list_ex (\<lambda>a'. contained_in b a') as) bs
      | _ \<Rightarrow> False)"
| "contained_in b a = scalar_eq a b"

definition jsonb_contains :: "json \<Rightarrow> json \<Rightarrow> bool" where
  "jsonb_contains a b =
     (case (a, b) of
        (JArr as, JObj _) \<Rightarrow> False
      | (JArr as, JArr _) \<Rightarrow> contained_in b a
      | (JArr as, _) \<Rightarrow> list_ex (scalar_eq b) as
      | _ \<Rightarrow> contained_in b a)"

text \<open>
  JavaScript truthiness, as the \<open>x || y\<close>, \<open>x ? a : b\<close> and \<open>if (x)\<close> tests of the
  source read it: a string is falsy exactly when it is empty, a missing property is falsy.
\<close>

definition truthy :: "string option \<Rightarrow> string option" where
  "truthy x = (case x of None \<Rightarrow> None | Some s \<Rightarrow> if s = [] then None else Some s)"

definition json_truthy :: "json \<Rightarrow> bool" where
  "json_truthy v =
     (case v of
        JNull \<Rightarrow> False
      | JBool b \<Rightarrow> b
      | JNum m e \<Rightarrow> m \<noteq> 0
      | JStr s \<Rightarrow> s \<noteq> []
      | _ \<Rightarrow> True)"

section \<open>The audit table and the statements sent to the store\<close>

text \<open>
  One row of \<open>tbl_audit_trail_logs\<close> (migration 001). The table is the list of its rows
  in insertion order; the \<open>bigserial\<close> id is that order and is not a field of the model.
\<close>

type_synonym timestamp = int

record row =
  process_id :: string
  comp_code :: string
  emp_id :: "string option"
  source_app :: string
  source_function :: "string option"
  reference_id :: "string option"
  action :: string
  description :: "string option"
  metadata :: json
  created_by :: string
  created_at :: timestamp
  app_version :: "string option"
  batch_id :: "string option"

datatype column =
  Comp_code | Emp_id | Source_app | Source_function | Reference_id | Created_by | Action

definition column_value :: "row \<Rightarrow> column \<Rightarrow> string option" where
  "column_value r col =
     (case col of
        Comp_code \<Rightarrow> Some (comp_code r)
      | Emp_id \<Rightarrow> emp_id r
      | Source_app \<Rightarrow> Some (source_app r)
      | Source_function \<Rightarrow> source_function r
      | Reference_id \<Rightarrow> reference_id r
      | Created_by \<Rightarrow> Some (created_by r)
      | Action \<Rightarrow> Some (action r))"

text \<open>
  The WHERE clauses are built by appending \<open>AND col = $n\<close> fragments and pushing the value
  on a parameter array. A condition keeps its placeholder number; the values stay in the
  parameter list, as in the source.
\<close>

datatype param = P_Str string | P_Date timestamp | P_Num int

datatype cond =
    Col_Eq column nat
  | Created_Ge nat
  | Created_Le nat
  | Metadata_Contains nat

datatype bound_cond =
    B_Eq column string
  | B_Ge timestamp
  | B_Le timestamp
  | B_Contains json

definition placeholder :: "param list \<Rightarrow> nat \<Rightarrow> param option" where
  "placeholder ps n = (if 1 \<le> n \<and> n \<le> length ps then Some (ps ! (n - 1)) else None)"

text \<open>
  Binding a condition to its parameter. \<open>$n::jsonb\<close> casts the text parameter to a
  document: text that is not JSON is refused here, before any row is read.
\<close>

fun bind_cond :: "param list \<Rightarrow> cond \<Rightarrow> bound_cond option" where
  "bind_cond ps (Col_Eq col n) =
     (case placeholder ps n of Some (P_Str s) \<Rightarrow> Some (B_Eq col s) | _ \<Rightarrow> None)"
| "bind_cond ps (Created_Ge n) =
     (case placeholder ps n of Some (P_Date t) \<Rightarrow> Some (B_Ge t) | _ \<Rightarrow> None)"
| "bind_cond ps (Created_Le n) =
     (case placeholder ps n of Some (P_Date t) \<Rightarrow> Some (B_Le t) | _ \<Rightarrow> None)"
| "bind_cond ps (Metadata_Contains n) =
     (case placeholder ps n of
        Some (P_Str s) \<Rightarrow> map_option B_Contains (json_parse s)
      | _ \<Rightarrow> None)"

fun holds :: "bound_cond \<Rightarrow> row \<Rightarrow> bool" where
  "holds (B_Eq col s) r = (column_value r col = Some s)"
| "holds (B_Ge t) r = (t \<le> created_at r)"
| "holds (B_Le t) r = (created_at r \<le> t)"
| "holds (B_Contains j) r = jsonb_contains (metadata r) j"

text \<open>
  The statements of the program. BEGIN, COMMIT, ROLLBACK, the tenant SET and the
  \<open>current_setting\<close> check are sent as literal text. The INSERT has a fixed text with
  thirteen placeholders and \<open>ON CONFLICT (process_id) DO NOTHING\<close>; it is modelled by the
  row its thirteen values make. The two SELECT shapes carry their WHERE conditions;
  the page adds \<open>ORDER BY created_at DESC LIMIT $l OFFSET $o\<close>.
\<close>

datatype statement =
    Sql string "param list"
  | Insert_Log row
  | Select_Count "cond list" "param list"
  | Select_Page "cond list" nat nat "param list"

datatype reply = Command_Ok nat | Setting string | Count nat | Rows "row list"

datatype error =
    Store_Unavailable
  | Syntax_Error
  | In_Failed_Transaction
  | Policy_Violation
  | Unrecognized_Setting
  | Invalid_Parameter
  | Type_Error

datatype txn_state = Idle | Active "row list" | Failed

datatype event = Connect | Query statement | Release | Respond nat

text \<open>
  A pooled client: the committed table, the state of the session's transaction (an open
  transaction works on its own copy of the table), the session's \<open>app.current_tenant\<close>
  setting, and the journal of everything that happened on it. Requests are served one
  at a time on one client; the setting stays on the session when it goes back to the pool.
\<close>

record client =
  committed :: "row list"
  txn :: txn_state
  current_tenant :: "string option"
  journal :: "event list"

text \<open>
  What the program cannot compute is asked of the environment. \<open>fault\<close>, \<open>uuidv4\<close> and
  \<open>now\<close> are indexed by the length of the journal at the moment of the call: \<open>fault n\<close>
  says that the store interaction number \<open>n\<close> fails for a reason of the store's own
  (connection lost, value refused). The remaining fields are the library functions the
  program calls: \<open>new Date(s)\<close>, \<open>Date.toISOString\<close>, \<open>Number(v)\<close> (\<open>None\<close>
  when the result is not an integer), \<open>String(v)\<close>, the ISO date-time test of the request
  schemas, and the \<open>API_KEYS\<close> table read at start-up.
\<close>

record env =
  fault :: "nat \<Rightarrow> bool"
  uuidv4 :: "nat \<Rightarrow> string"
  now :: "nat \<Rightarrow> timestamp"
  new_Date :: "string \<Rightarrow> timestamp"
  toISOString :: "timestamp \<Rightarrow> string"
  js_Number :: "json \<Rightarrow> int option"
  js_String :: "json \<Rightarrow> string"
  is_datetime :: "string \<Rightarrow> bool"
  API_KEYS :: "string \<Rightarrow> string option"

definition tick :: "client \<Rightarrow> nat" where
  "tick c = length (journal c)"

definition table :: "client \<Rightarrow> row list" where
  "table c = (case txn c of Active w \<Rightarrow> w | _ \<Rightarrow> committed c)"

subsection \<open>The tenant marker\<close>

definition quote :: char where
  "quote = CHR 0x27"

definition current_setting_sql :: string where
  "current_setting_sql = ''SELECT current_setting('app.current_tenant') AS tenant''"

definition set_tenant_prefix :: string where
  "set_tenant_prefix = ''SET app.current_tenant = ''"

text \<open>
  The store reads a quoted literal up to its closing quote; two quotes in a row stand for
  one quote inside the literal (standard-conforming strings, no backslash escapes).
  The argument is the text after the opening quote; the result is the value and the text
  left after the closing quote.
\<close>

fun quoted_literal :: "string \<Rightarrow> (string \<times> string) option" where
  "quoted_literal [] = None"
| "quoted_literal [c] = (if c = quote then Some ([], []) else None)"
| "quoted_literal (c # d # cs) =
     (if c = quote
      then (if d = quote
            then map_option (\<lambda>(v, r). (quote # v, r)) (quoted_literal cs)
            else Some ([], d # cs))
      else map_option (\<lambda>(v, r). (c # v, r)) (quoted_literal (d # cs)))"

definition parse_set_tenant :: "string \<Rightarrow> string option" where
  "parse_set_tenant text =
     (if take (length set_tenant_prefix) text = set_tenant_prefix
      then (case drop (length set_tenant_prefix) text of
              [] \<Rightarrow> None
            | q # body \<Rightarrow>
                if q = quote
                then (case quoted_literal body of Some (v, []) \<Rightarrow> Some v | _ \<Rightarrow> None)
                else None)
      else None)"

subsection \<open>Executing a statement\<close>

definition exec_sql :: "string \<Rightarrow> client \<Rightarrow> error + reply \<times> client" where
  "exec_sql text c =
     (if CHR 0x00 \<in> set text then Inl Syntax_Error
      else if text = ''ROLLBACK'' then Inr (Command_Ok 0, c\<lparr>txn := Idle\<rparr>)
      else if text = ''COMMIT'' then
        Inr (Command_Ok 0,
             case txn c of
               Active w \<Rightarrow> c\<lparr>committed := w, txn := Idle\<rparr>
             | _ \<Rightarrow> c\<lparr>txn := Idle\<rparr>)
      else if txn c = Failed then Inl In_Failed_Transaction
      else if text = ''BEGIN'' then
        Inr (Command_Ok 0,
             case txn c of
               Idle \<Rightarrow> c\<lparr>txn := Active (committed c)\<rparr>
             | _ \<Rightarrow> c)
      else if text = current_setting_sql then
        (case current_tenant c of
           None \<Rightarrow> Inl Unrecognized_Setting
         | Some t \<Rightarrow> Inr (Setting t, c))
      else (case parse_set_tenant text of
              None \<Rightarrow> Inl Syntax_Error
            | Some v \<Rightarrow> Inr (Command_Ok 0, c\<lparr>current_tenant := Some v\<rparr>)))"

definition store_row :: "row \<Rightarrow> client \<Rightarrow> client" where
  "store_row r c =
     (case txn c of
        Active w \<Rightarrow> c\<lparr>txn := Active (w @ [r])\<rparr>
      | _ \<Rightarrow> c\<lparr>committed := committed c @ [r]\<rparr>)"

text \<open>
  The policy \<open>tenant_isolation\<close> (FOR ALL, USING and WITH CHECK
  \<open>comp_code = current_setting('app.current_tenant')\<close>, row security forced): a new row
  must carry the session's tenant, and a read sees only the session tenant's rows. The
  unique constraint on \<open>process_id\<close> looks at every row of the table, whatever its
  tenant; a conflicting insert does nothing.
\<close>

definition exec_insert :: "row \<Rightarrow> client \<Rightarrow> error + reply \<times> client" where
  "exec_insert r c =
     (if txn c = Failed then Inl In_Failed_Transaction
      else (case current_tenant c of
              None \<Rightarrow> Inl Unrecognized_Setting
            | Some t \<Rightarrow>
                if comp_code r \<noteq> t then Inl Policy_Violation
                else if process_id r \<in> set (map process_id (table c)) then Inr (Command_Ok 0, c)
                else Inr (Command_Ok 1, store_row r c)))"

definition matching :: "string \<Rightarrow> bound_cond list \<Rightarrow> row list \<Rightarrow> row list" where
  "matching t bs rs = filter (\<lambda>r. comp_code r = t \<and> list_all (\<lambda>b. holds b r) bs) rs"

definition exec_count :: "cond list \<Rightarrow> param list \<Rightarrow> client \<Rightarrow> error + reply \<times> client" where
  "exec_count conds ps c =
     (if txn c = Failed then Inl In_Failed_Transaction
      else (case current_tenant c of
              None \<Rightarrow> Inl Unrecognized_Setting
            | Some t \<Rightarrow>
                (case those (map (bind_cond ps) conds) of
                   None \<Rightarrow> Inl Invalid_Parameter
                 | Some bs \<Rightarrow> Inr (Count (length (matching t bs (table c))), c))))"

text \<open>
  \<open>ORDER BY created_at DESC\<close> names no second key, so the store may return rows of equal
  creation time in any order. The model returns them in table order, which is one of
  the orders the store may choose; what is proved of a page below holds of every such
  order (\<open>latest_first\<close>).
\<close>

definition exec_page ::
  "cond list \<Rightarrow> nat \<Rightarrow> nat \<Rightarrow> param list \<Rightarrow> client \<Rightarrow> error + reply \<times> client" where
  "exec_page conds l o' ps c =
     (if txn c = Failed then Inl In_Failed_Transaction
      else (case current_tenant c of
              None \<Rightarrow> Inl Unrecognized_Setting
            | Some t \<Rightarrow>
                (case those (map (bind_cond ps) conds) of
                   None \<Rightarrow> Inl Invalid_Parameter
                 | Some bs \<Rightarrow>
                     (case (placeholder ps l, placeholder ps o') of
                        (Some (P_Num lim), Some (P_Num off)) \<Rightarrow>
                          if lim < 0 \<or> off < 0 then Inl Invalid_Parameter
                          else Inr (Rows (take (nat lim) (drop (nat off)
                                      (sort_key (\<lambda>r. - created_at r) (matching t bs (table c))))), c)
                      | _ \<Rightarrow> Inl Invalid_Parameter))))"

definition exec :: "statement \<Rightarrow> client \<Rightarrow> error + reply \<times> client" where
  "exec st c =
     (case st of
        Sql text ps \<Rightarrow> exec_sql text c
      | Insert_Log r \<Rightarrow> exec_insert r c
      | Select_Count conds ps \<Rightarrow> exec_count conds ps c
      | Select_Page conds l o' ps \<Rightarrow> exec_page conds l o' ps c)"

definition fail_txn :: "client \<Rightarrow> client" where
  "fail_txn c = (case txn c of Active w \<Rightarrow> c\<lparr>txn := Failed\<rparr> | _ \<Rightarrow> c)"

text \<open>
  \<open>client.query\<close>: the statement is journalled; it raises when the store fails by itself
  or refuses the statement, and a statement that raises inside an open transaction leaves
  the transaction failed, its work discarded.
\<close>

definition query :: "env \<Rightarrow> statement \<Rightarrow> client \<Rightarrow> (error + reply) \<times> client" where
  "query ev st c =
     (let c1 = c\<lparr>journal := journal c @ [Query st]\<rparr>
      in if fault ev (tick c) then (Inl Store_Unavailable, fail_txn c1)
         else (case exec st c1 of
                 Inl e \<Rightarrow> (Inl e, fail_txn c1)
               | Inr (r, c2) \<Rightarrow> (Inr r, c2)))"

section \<open>The audit service\<close>

text \<open>
  A validated batch (the output of \<open>batchSchema\<close>): every entry has gone through
  \<open>logSchema\<close>, so its metadata is a document and its optional strings are present or
  absent.
\<close>

record log_entry =
  log_emp_id :: "string option"
  log_process_id :: "string option"
  log_source_app :: string
  log_source_function :: "string option"
  log_reference_id :: "string option"
  log_action :: string
  log_description :: "string option"
  log_created_at :: "string option"
  log_metadata :: json

record batch_payload =
  p_comp_code :: string
  p_app_version :: "string option"
  p_created_by :: string
  p_logs :: "log_entry list"

record batch_result =
  res_batch_id :: string
  total_received :: nat

subsection \<open>storeBatchLogs\<close>

definition new_batch_id :: "env \<Rightarrow> nat \<Rightarrow> string" where
  "new_batch_id ev n =
     ''BATCH_'' @ filter (\<lambda>c. c \<noteq> CHR ''-'') (take 10 (toISOString ev (now ev n)))
       @ ''_'' @ take 8 (uuidv4 ev n)"

text \<open>The thirteen values of one INSERT, in the order of the source's parameter array.\<close>

definition log_row :: "env \<Rightarrow> nat \<Rightarrow> batch_payload \<Rightarrow> string \<Rightarrow> log_entry \<Rightarrow> row" where
  "log_row ev n p bid l =
     \<lparr> process_id = (case truthy (log_process_id l) of Some s \<Rightarrow> s | None \<Rightarrow> uuidv4 ev n),
       comp_code = p_comp_code p,
       emp_id = truthy (log_emp_id l),
       source_app = log_source_app l,
       source_function = truthy (log_source_function l),
       reference_id = truthy (log_reference_id l),
       action = log_action l,
       description = truthy (log_description l),
       metadata = (if json_truthy (log_metadata l) then log_metadata l else JObj []),
       created_by = p_created_by p,
       created_at = (case truthy (log_created_at l) of
                       Some s \<Rightarrow> new_Date ev s
                     | None \<Rightarrow> now ev n),
       app_version = truthy (p_app_version p),
       batch_id = Some bid \<rparr>"

text \<open>The \<open>for (const log of logs)\<close> loop: the first INSERT that raises ends it.\<close>

fun insert_logs ::
  "env \<Rightarrow> batch_payload \<Rightarrow> string \<Rightarrow> log_entry list \<Rightarrow> client \<Rightarrow> (error + unit) \<times> client" where
  "insert_logs ev p bid [] c = (Inr (), c)"
| "insert_logs ev p bid (l # ls) c =
     (case query ev (Insert_Log (log_row ev (tick c) p bid l)) c of
        (Inl e, c') \<Rightarrow> (Inl e, c')
      | (Inr _, c') \<Rightarrow> insert_logs ev p bid ls c')"

text \<open>
  The \<open>catch\<close> block: ROLLBACK, then the error is thrown again. When the ROLLBACK
  itself raises, its error is the one that leaves the function.
\<close>

definition rollback_and_throw ::
  "env \<Rightarrow> error \<Rightarrow> client \<Rightarrow> (error + batch_result) \<times> client" where
  "rollback_and_throw ev e c =
     (case query ev (Sql ''ROLLBACK'' []) c of
        (Inl e', c') \<Rightarrow> (Inl e', c')
      | (Inr _, c') \<Rightarrow> (Inl e, c'))"

definition storeBatchLogs ::
  "env \<Rightarrow> client \<Rightarrow> batch_payload \<Rightarrow> (error + batch_result) \<times> client" where
  "storeBatchLogs ev c p =
     (let bid = new_batch_id ev (tick c)
      in case query ev (Sql ''BEGIN'' []) c of
           (Inl e, c1) \<Rightarrow> rollback_and_throw ev e c1
         | (Inr _, c1) \<Rightarrow>
             (case insert_logs ev p bid (p_logs p) c1 of
                (Inl e, c2) \<Rightarrow> rollback_and_throw ev e c2
              | (Inr _, c2) \<Rightarrow>
                  (case query ev (Sql ''COMMIT'' []) c2 of
                     (Inl e, c3) \<Rightarrow> rollback_and_throw ev e c3
                   | (Inr _, c3) \<Rightarrow>
                       (Inr \<lparr> res_batch_id = bid, total_received = length (p_logs p) \<rparr>, c3))))"

subsection \<open>The three retrievals\<close>

text \<open>
  The filters are the output of \<open>querySchema\<close> (tenant, page, time range) extended by
  what each route adds. \<open>from\<close> and \<open>to\<close> are the ISO strings the schema accepted.
\<close>

record query_filters =
  q_comp_code :: string
  q_limit :: int
  q_offset :: int
  q_from :: "string option"
  q_to :: "string option"

record user_filters = query_filters +
  uf_emp_id :: string

record app_filters = query_filters +
  af_source_app :: string
  af_source_function :: "string option"

record search_filters = query_filters +
  sf_source_app :: "string option"
  sf_source_function :: "string option"
  sf_reference_id :: "string option"
  sf_created_by :: "string option"
  sf_action :: "string option"
  sf_metadata :: "string option"

text \<open>
  The three variables of each query under construction: the text (its conditions), the
  parameter array and the next placeholder number.  Each \<open>if (v) { sql += ...; params.push(v) }\<close>
  line is one of the steps below.
\<close>

record builder =
  sql :: "cond list"
  params :: "param list"
  idx :: nat

definition and_eq :: "column \<Rightarrow> string option \<Rightarrow> builder \<Rightarrow> builder" where
  "and_eq col v b =
     (case truthy v of
        None \<Rightarrow> b
      | Some s \<Rightarrow> b\<lparr>sql := sql b @ [Col_Eq col (idx b)], params := params b @ [P_Str s],
                     idx := idx b + 1\<rparr>)"

definition and_from :: "env \<Rightarrow> string option \<Rightarrow> builder \<Rightarrow> builder" where
  "and_from ev v b =
     (case truthy v of
        None \<Rightarrow> b
      | Some s \<Rightarrow> b\<lparr>sql := sql b @ [Created_Ge (idx b)], params := params b @ [P_Date (new_Date ev s)],
                     idx := idx b + 1\<rparr>)"

definition and_to :: "env \<Rightarrow> string option \<Rightarrow> builder \<Rightarrow> builder" where
  "and_to ev v b =
     (case truthy v of
        None \<Rightarrow> b
      | Some s \<Rightarrow> b\<lparr>sql := sql b @ [Created_Le (idx b)], params := params b @ [P_Date (new_Date ev s)],
                     idx := idx b + 1\<rparr>)"

definition and_metadata :: "string option \<Rightarrow> builder \<Rightarrow> builder" where
  "and_metadata v b =
     (case truthy v of
        None \<Rightarrow> b
      | Some s \<Rightarrow> b\<lparr>sql := sql b @ [Metadata_Contains (idx b)], params := params b @ [P_Str s],
                     idx := idx b + 1\<rparr>)"

definition count_statement :: "builder \<Rightarrow> statement" where
  "count_statement b = Select_Count (sql b) (params b)"

text \<open>
  \<open>sql += ORDER BY created_at DESC LIMIT $idx++ OFFSET $idx; params.push(limit, offset)\<close>.
\<close>

definition page_statement :: "int \<Rightarrow> int \<Rightarrow> builder \<Rightarrow> statement" where
  "page_statement lim off b =
     Select_Page (sql b) (idx b) (idx b + 1) (params b @ [P_Num lim, P_Num off])"

record page_result =
  rows :: "row list"
  total_count :: nat

text \<open>
  The shared tail of the three functions: the count query, then the page query; either
  may raise. A reply of the wrong shape cannot come back from these statements.
\<close>

definition count_then_page ::
  "env \<Rightarrow> statement \<Rightarrow> statement \<Rightarrow> client \<Rightarrow> (error + page_result) \<times> client" where
  "count_then_page ev count_st page_st c =
     (case query ev count_st c of
        (Inl e, c1) \<Rightarrow> (Inl e, c1)
      | (Inr (Count n), c1) \<Rightarrow>
          (case query ev page_st c1 of
             (Inl e, c2) \<Rightarrow> (Inl e, c2)
           | (Inr (Rows rs), c2) \<Rightarrow> (Inr \<lparr> rows = rs, total_count = n \<rparr>, c2)
           | (Inr _, c2) \<Rightarrow> (Inl Type_Error, c2))
      | (Inr _, c1) \<Rightarrow> (Inl Type_Error, c1))"

definition getUserLogs_count :: "env \<Rightarrow> user_filters \<Rightarrow> builder" where
  "getUserLogs_count ev f =
     and_to ev (q_to f)
       (and_from ev (q_from f)
          \<lparr> sql = [Col_Eq Comp_code 1, Col_Eq Emp_id 2],
            params = [P_Str (q_comp_code f), P_Str (uf_emp_id f)],
            idx = 3 \<rparr>)"

definition getUserLogs_page :: "env \<Rightarrow> user_filters \<Rightarrow> builder" where
  "getUserLogs_page ev f =
     and_to ev (q_to f)
       (and_from ev (q_from f)
          \<lparr> sql = [Col_Eq Comp_code 1, Col_Eq Emp_id 2],
            params = [P_Str (q_comp_code f), P_Str (uf_emp_id f)],
            idx = 3 \<rparr>)"

definition getUserLogs :: "env \<Rightarrow> client \<Rightarrow> user_filters \<Rightarrow> (error + page_result) \<times> client" where
  "getUserLogs ev c f =
     count_then_page ev
       (count_statement (getUserLogs_count ev f))
       (page_statement (q_limit f) (q_offset f) (getUserLogs_page ev f)) c"

definition getAppLogs_count :: "env \<Rightarrow> app_filters \<Rightarrow> builder" where
  "getAppLogs_count ev f =
     and_to ev (q_to f)
       (and_from ev (q_from f)
          (and_eq Source_function (af_source_function f)
             \<lparr> sql = [Col_Eq Comp_code 1, Col_Eq Source_app 2],
               params = [P_Str (q_comp_code f), P_Str (af_source_app f)],
               idx = 3 \<rparr>))"

definition getAppLogs_page :: "env \<Rightarrow> app_filters \<Rightarrow> builder" where
  "getAppLogs_page ev f =
     and_to ev (q_to f)
       (and_from ev (q_from f)
          (and_eq Source_function (af_source_function f)
             \<lparr> sql = [Col_Eq Comp_code 1, Col_Eq Source_app 2],
               params = [P_Str (q_comp_code f), P_Str (af_source_app f)],
               idx = 3 \<rparr>))"

definition getAppLogs :: "env \<Rightarrow> client \<Rightarrow> app_filters \<Rightarrow> (error + page_result) \<times> client" where
  "getAppLogs ev c f =
     count_then_page ev
       (count_statement (getAppLogs_count ev f))
       (page_statement (q_limit f) (q_offset f) (getAppLogs_page ev f)) c"

definition searchLogs_count :: "env \<Rightarrow> search_filters \<Rightarrow> builder" where
  "searchLogs_count ev f =
     and_metadata (sf_metadata f)
       (and_to ev (q_to f)
          (and_from ev (q_from f)
             (and_eq Action (sf_action f)
                (and_eq Created_by (sf_created_by f)
                   (and_eq Reference_id (sf_reference_id f)
                      (and_eq Source_function (sf_source_function f)
                         (and_eq Source_app (sf_source_app f)
                            \<lparr> sql = [Col_Eq Comp_code 1],
                              params = [P_Str (q_comp_code f)],
                              idx = 2 \<rparr>)))))))"

definition searchLogs_page :: "env \<Rightarrow> search_filters \<Rightarrow> builder" where
  "searchLogs_page ev f =
     and_metadata (sf_metadata f)
       (and_to ev (q_to f)
          (and_from ev (q_from f)
             (and_eq Action (sf_action f)
                (and_eq Created_by (sf_created_by f)
                   (and_eq Reference_id (sf_reference_id f)
                      (and_eq Source_function (sf_source_function f)
                         (and_eq Source_app (sf_source_app f)
                            \<lparr> sql = [Col_Eq Comp_code 1],
                              params = [P_Str (q_comp_code f)],
                              idx = 2 \<rparr>)))))))"

definition searchLogs :: "env \<Rightarrow> client \<Rightarrow> search_filters \<Rightarrow> (error + page_result) \<times> client" where
  "searchLogs ev c f =
     count_then_page ev
       (count_statement (searchLogs_count ev f))
       (page_statement (q_limit f) (q_offset f) (searchLogs_page ev f)) c"

section \<open>The HTTP surface\<close>

text \<open>
  A request to the \<open>/audit\<close> mount: method, path below \<open>/audit\<close> with its path parameter,
  the \<open>x-api-key\<close> header, the parsed JSON body and the parsed query string.
  The list of validation issues in a 400 body and the error text of a development build
  are not part of a response here.
\<close>

datatype http_method = GET | POST | OTHER

datatype path = Logs_Batch | Logs_User string | Logs_App string | Logs_Search | Unrouted

record request =
  http_method :: http_method
  path :: path
  x_api_key :: "string option"
  body :: json
  query_string :: "(string \<times> json) list"

datatype response =
    Failure nat string
  | Stored nat string
  | Page "row list" nat nat int int
  | Not_Found

fun status :: "response \<Rightarrow> nat" where
  "status (Failure n m) = n"
| "status (Stored n b) = 201"
| "status (Page rs n k l o') = 200"
| "status Not_Found = 404"

subsection \<open>Request schemas\<close>

text \<open>
  Each schema is a function from the raw value to the validated one, \<open>None\<close> standing
  for a ZodError. \<open>max(n)\<close> bounds the length of the model's string.
\<close>

definition known_keys :: "string list \<Rightarrow> (string \<times> json) list \<Rightarrow> bool" where
  "known_keys ks kvs = list_all (\<lambda>(k, v). k \<in> set ks) kvs"

definition z_string :: "json \<Rightarrow> string option" where
  "z_string v = (case v of JStr s \<Rightarrow> Some s | _ \<Rightarrow> None)"

definition z_string_max :: "nat \<Rightarrow> json \<Rightarrow> string option" where
  "z_string_max n v = (case v of JStr s \<Rightarrow> if length s \<le> n then Some s else None | _ \<Rightarrow> None)"

definition z_tenant :: "json \<Rightarrow> string option" where
  "z_tenant v = (case v of JStr s \<Rightarrow> if 1 \<le> length s \<and> length s \<le> 50 then Some s else None | _ \<Rightarrow> None)"

definition z_datetime :: "env \<Rightarrow> json \<Rightarrow> string option" where
  "z_datetime ev v = (case v of JStr s \<Rightarrow> if is_datetime ev s then Some s else None | _ \<Rightarrow> None)"

text \<open>\<open>.optional()\<close>: a missing property is accepted; a present one must pass the check.\<close>

definition optional :: "(json \<Rightarrow> 'a option) \<Rightarrow> json option \<Rightarrow> 'a option option" where
  "optional check v = (case v of None \<Rightarrow> Some None | Some j \<Rightarrow> map_option Some (check j))"

definition required :: "(json \<Rightarrow> 'a option) \<Rightarrow> json option \<Rightarrow> 'a option" where
  "required check v = (case v of None \<Rightarrow> None | Some j \<Rightarrow> check j)"

definition with_default :: "'a \<Rightarrow> (json \<Rightarrow> 'a option) \<Rightarrow> json option \<Rightarrow> 'a option" where
  "with_default d check v = (case v of None \<Rightarrow> Some d | Some j \<Rightarrow> check j)"

text \<open>The transform of the \<open>metadata\<close> field of \<open>logSchema\<close>.\<close>

definition metadata_transform :: "json option \<Rightarrow> json" where
  "metadata_transform v =
     (case v of
        None \<Rightarrow> JObj []
      | Some JNull \<Rightarrow> JObj []
      | Some (JObj kvs) \<Rightarrow> JObj kvs
      | Some (JStr s) \<Rightarrow>
          (case json_parse s of
             Some (JObj kvs) \<Rightarrow> JObj kvs
           | Some (JArr xs) \<Rightarrow> JArr xs
           | _ \<Rightarrow> JObj [])
      | _ \<Rightarrow> JObj [])"

definition logSchema_parse :: "env \<Rightarrow> json \<Rightarrow> log_entry option" where
  "logSchema_parse ev j =
     (case j of
        JObj kvs \<Rightarrow>
          if \<not> known_keys [''emp_id'', ''process_id'', ''source_app'', ''source_function'',
                            ''reference_id'', ''action'', ''description'', ''created_at'',
                            ''metadata''] kvs
          then None
          else do {
            e \<leftarrow> optional (z_string_max 50) (object_field kvs ''emp_id'');
            pid \<leftarrow> optional (z_string_max 100) (object_field kvs ''process_id'');
            app \<leftarrow> required (z_string_max 100) (object_field kvs ''source_app'');
            fn \<leftarrow> optional (z_string_max 150) (object_field kvs ''source_function'');
            ref \<leftarrow> optional (z_string_max 150) (object_field kvs ''reference_id'');
            act \<leftarrow> required (z_string_max 100) (object_field kvs ''action'');
            desc \<leftarrow> optional z_string (object_field kvs ''description'');
            cat \<leftarrow> optional (z_datetime ev) (object_field kvs ''created_at'');
            Some \<lparr> log_emp_id = e, log_process_id = pid, log_source_app = app,
                   log_source_function = fn, log_reference_id = ref, log_action = act,
                   log_description = desc, log_created_at = cat,
                   log_metadata = metadata_transform (object_field kvs ''metadata'') \<rparr>
          }
      | _ \<Rightarrow> None)"

definition z_logs :: "env \<Rightarrow> json \<Rightarrow> log_entry list option" where
  "z_logs ev v =
     (case v of
        JArr xs \<Rightarrow>
          if length xs < 1 \<or> 1000 < length xs then None
          else those (map (logSchema_parse ev) xs)
      | _ \<Rightarrow> None)"

definition batchSchema_parse :: "env \<Rightarrow> json \<Rightarrow> batch_payload option" where
  "batchSchema_parse ev j =
     (case j of
        JObj kvs \<Rightarrow>
          if \<not> known_keys [''comp_code'', ''app_version'', ''created_by'', ''logs''] kvs
          then None
          else do {
            cc \<leftarrow> required z_tenant (object_field kvs ''comp_code'');
            ver \<leftarrow> optional (z_string_max 20) (object_field kvs ''app_version'');
            who \<leftarrow> with_default ''SYSTEM'' (z_string_max 50) (object_field kvs ''created_by'');
            ls \<leftarrow> required (z_logs ev) (object_field kvs ''logs'');
            Some \<lparr> p_comp_code = cc, p_app_version = ver, p_created_by = who, p_logs = ls \<rparr>
          }
      | _ \<Rightarrow> None)"

definition z_limit :: "env \<Rightarrow> json \<Rightarrow> int option" where
  "z_limit ev v =
     (case js_Number ev v of
        None \<Rightarrow> None
      | Some n \<Rightarrow> if 1 \<le> n \<and> n \<le> 200 then Some n else None)"

definition z_offset :: "env \<Rightarrow> json \<Rightarrow> int option" where
  "z_offset ev v =
     (case js_Number ev v of
        None \<Rightarrow> None
      | Some n \<Rightarrow> if 0 \<le> n then Some n else None)"

definition query_shape :: "env \<Rightarrow> (string \<times> json) list \<Rightarrow> query_filters option" where
  "query_shape ev q =
     do {
       cc \<leftarrow> required z_tenant (map_of q ''comp_code'');
       lim \<leftarrow> with_default 50 (z_limit ev) (map_of q ''limit'');
       off \<leftarrow> with_default 0 (z_offset ev) (map_of q ''offset'');
       fr \<leftarrow> optional (z_datetime ev) (map_of q ''from'');
       to \<leftarrow> optional (z_datetime ev) (map_of q ''to'');
       Some \<lparr> q_comp_code = cc, q_limit = lim, q_offset = off, q_from = fr, q_to = to \<rparr>
     }"

text \<open>\<open>querySchema\<close> is strict: a key it does not name is a validation error.\<close>

definition querySchema_parse :: "env \<Rightarrow> (string \<times> json) list \<Rightarrow> query_filters option" where
  "querySchema_parse ev q =
     (if \<not> known_keys [''comp_code'', ''limit'', ''offset'', ''from'', ''to''] q then None
      else query_shape ev q)"

definition searchSchema_parse :: "env \<Rightarrow> (string \<times> json) list \<Rightarrow> search_filters option" where
  "searchSchema_parse ev q =
     (if \<not> known_keys [''comp_code'', ''limit'', ''offset'', ''from'', ''to'',
                        ''source_app'', ''source_function'', ''reference_id'', ''created_by'',
                        ''action'', ''metadata''] q
      then None
      else do {
        v \<leftarrow> query_shape ev q;
        app \<leftarrow> optional (z_string_max 100) (map_of q ''source_app'');
        fn \<leftarrow> optional (z_string_max 150) (map_of q ''source_function'');
        ref \<leftarrow> optional (z_string_max 150) (map_of q ''reference_id'');
        who \<leftarrow> optional (z_string_max 50) (map_of q ''created_by'');
        act \<leftarrow> optional (z_string_max 100) (map_of q ''action'');
        md \<leftarrow> optional z_string (map_of q ''metadata'');
        Some \<lparr> q_comp_code = q_comp_code v, q_limit = q_limit v, q_offset = q_offset v,
               q_from = q_from v, q_to = q_to v,
               sf_source_app = app, sf_source_function = fn, sf_reference_id = ref,
               sf_created_by = who, sf_action = act, sf_metadata = md \<rparr>
      })"

subsection \<open>The auth middleware\<close>

definition property_key :: "env \<Rightarrow> json \<Rightarrow> string" where
  "property_key ev v = (case v of JStr s \<Rightarrow> s | _ \<Rightarrow> js_String ev v)"

definition unauthorized_message :: string where
  "unauthorized_message =
     ''Unauthorized '' @ [CHR 0xE2, CHR 0x80, CHR 0x93]
       @ '' invalid or missing API key for this company''"

definition request_comp_code :: "request \<Rightarrow> json option" where
  "request_comp_code req =
     (case http_method req of
        POST \<Rightarrow> (case body req of JObj kvs \<Rightarrow> object_field kvs ''comp_code'' | _ \<Rightarrow> None)
      | GET \<Rightarrow> map_of (query_string req) ''comp_code''
      | OTHER \<Rightarrow> None)"

text \<open>\<open>Inl\<close> is the response that ends the request; \<open>Inr\<close> is \<open>req.currentCompCode\<close>.\<close>

definition auth :: "env \<Rightarrow> request \<Rightarrow> response + json" where
  "auth ev req =
     (case request_comp_code req of
        None \<Rightarrow> Inl (Failure 400 ''comp_code is required for multi-tenant access'')
      | Some v \<Rightarrow>
          if \<not> json_truthy v
          then Inl (Failure 400 ''comp_code is required for multi-tenant access'')
          else if truthy (x_api_key req) = None \<or> API_KEYS ev (property_key ev v) \<noteq> x_api_key req
          then Inl (Failure 401 unauthorized_message)
          else Inr v)"

subsection \<open>The tenantContext middleware\<close>

definition escape_quotes :: "string \<Rightarrow> string" where
  "escape_quotes s = concat (map (\<lambda>c. if c = quote then [quote, quote] else [c]) s)"

text \<open>
  The statement text is the template literal with the escaped tenant between two quotes;
  the call binds no parameter.
\<close>

definition set_tenant_sql :: "string \<Rightarrow> string" where
  "set_tenant_sql t = set_tenant_prefix @ [quote] @ escape_quotes t @ [quote]"

definition set_tenant_statement :: "string \<Rightarrow> statement" where
  "set_tenant_statement t = Sql (set_tenant_sql t) []"

definition release :: "client \<Rightarrow> client" where
  "release c = c\<lparr>journal := journal c @ [Release]\<rparr>"

definition respond :: "response \<Rightarrow> client \<Rightarrow> client" where
  "respond r c = c\<lparr>journal := journal c @ [Respond (status r)]\<rparr>"

text \<open>
  What a request leaves behind: the response (none when nothing ever answers), whether
  the release listener was registered on the response's \<open>finish\<close> event, and the client.
\<close>

record exchange =
  answered :: "response option"
  on_finish :: bool
  pg :: client

definition setup_failed :: "client \<Rightarrow> exchange" where
  "setup_failed c =
     \<lparr> answered = Some (Failure 500 ''Tenant setup failed''),
       on_finish = False,
       pg = respond (Failure 500 ''Tenant setup failed'') (release c) \<rparr>"

text \<open>
  \<open>next\<close> is the rest of the chain; it is handed the fact that \<open>req.dbClient\<close> is set.
  \<open>db.getClient()\<close> is awaited outside the \<open>try\<close>: when the pool gives no client the
  middleware ends there and nothing answers the request. A tenant that is not a string
  has no \<open>replace\<close> method; the TypeError is caught like a failed statement.
\<close>

definition tenantContext ::
  "env \<Rightarrow> json option \<Rightarrow> (bool \<Rightarrow> client \<Rightarrow> response \<times> client) \<Rightarrow> client \<Rightarrow> exchange" where
  "tenantContext ev currentCompCode next c =
     (if \<not> (case currentCompCode of None \<Rightarrow> False | Some v \<Rightarrow> json_truthy v)
      then \<lparr> answered = Some (Failure 500 ''Tenant context not set''), on_finish = False,
             pg = respond (Failure 500 ''Tenant context not set'') c \<rparr>
      else if fault ev (tick c)
      then \<lparr> answered = None, on_finish = False, pg = c \<rparr>
      else
        (let c1 = c\<lparr>journal := journal c @ [Connect]\<rparr>
         in case currentCompCode of
              Some (JStr t) \<Rightarrow>
                (case query ev (set_tenant_statement t) c1 of
                   (Inl e, c2) \<Rightarrow> setup_failed c2
                 | (Inr _, c2) \<Rightarrow>
                     (case query ev (Sql current_setting_sql []) c2 of
                        (Inl e, c3) \<Rightarrow> setup_failed c3
                      | (Inr _, c3) \<Rightarrow>
                          (case next True c3 of
                             (r, c4) \<Rightarrow>
                               \<lparr> answered = Some r, on_finish = True, pg = respond r c4 \<rparr>)))
            | _ \<Rightarrow> setup_failed c1))"

text \<open>
  The response's \<open>finish\<close> event, emitted once after a response has been sent: the
  listener, when registered, releases the client (\<open>req.dbClient\<close> is set whenever the
  listener is).
\<close>

definition finish :: "exchange \<Rightarrow> exchange" where
  "finish x =
     (case answered x of
        None \<Rightarrow> x
      | Some r \<Rightarrow> if on_finish x then x\<lparr>pg := release (pg x)\<rparr> else x)"

subsection \<open>The routes\<close>

definition post_logs_batch :: "env \<Rightarrow> request \<Rightarrow> bool \<Rightarrow> client \<Rightarrow> response \<times> client" where
  "post_logs_batch ev req dbClient c =
     (case batchSchema_parse ev (body req) of
        None \<Rightarrow> (Failure 400 ''Validation failed'', c)
      | Some validated \<Rightarrow>
          if \<not> dbClient then (Failure 500 ''Database client not available'', c)
          else (case storeBatchLogs ev c validated of
                  (Inl e, c') \<Rightarrow> (Failure 500 ''Failed to store logs'', c')
                | (Inr r, c') \<Rightarrow> (Stored (total_received r) (res_batch_id r), c')))"

definition page_response :: "page_result \<Rightarrow> int \<Rightarrow> int \<Rightarrow> response" where
  "page_response r lim off = Page (rows r) (total_count r) (length (rows r)) lim off"

definition get_logs_user :: "env \<Rightarrow> request \<Rightarrow> string \<Rightarrow> bool \<Rightarrow> client \<Rightarrow> response \<times> client" where
  "get_logs_user ev req emp dbClient c =
     (case querySchema_parse ev (query_string req) of
        None \<Rightarrow> (Failure 400 ''Invalid query parameters'', c)
      | Some v \<Rightarrow>
          if \<not> dbClient then (Failure 500 ''Database client not available'', c)
          else (case getUserLogs ev c
                       \<lparr> q_comp_code = q_comp_code v, q_limit = q_limit v, q_offset = q_offset v,
                         q_from = q_from v, q_to = q_to v, uf_emp_id = emp \<rparr> of
                  (Inl e, c') \<Rightarrow> (Failure 500 ''Query failed'', c')
                | (Inr r, c') \<Rightarrow> (page_response r (q_limit v) (q_offset v), c')))"

text \<open>
  The application route validates the query string with \<open>querySchema\<close> and then reads
  \<open>source_function\<close> from the raw query string; the value is carried on when it is a
  string.
\<close>

definition get_logs_app :: "env \<Rightarrow> request \<Rightarrow> string \<Rightarrow> bool \<Rightarrow> client \<Rightarrow> response \<times> client" where
  "get_logs_app ev req app dbClient c =
     (case querySchema_parse ev (query_string req) of
        None \<Rightarrow> (Failure 400 ''Invalid query parameters'', c)
      | Some v \<Rightarrow>
          if \<not> dbClient then (Failure 500 ''Database client not available'', c)
          else (case getAppLogs ev c
                       \<lparr> q_comp_code = q_comp_code v, q_limit = q_limit v, q_offset = q_offset v,
                         q_from = q_from v, q_to = q_to v, af_source_app = app,
                         af_source_function =
                           Option.bind (map_of (query_string req) ''source_function'') z_string \<rparr> of
                  (Inl e, c') \<Rightarrow> (Failure 500 ''Query failed'', c')
                | (Inr r, c') \<Rightarrow> (page_response r (q_limit v) (q_offset v), c')))"

definition get_logs_search :: "env \<Rightarrow> request \<Rightarrow> bool \<Rightarrow> client \<Rightarrow> response \<times> client" where
  "get_logs_search ev req dbClient c =
     (case searchSchema_parse ev (query_string req) of
        None \<Rightarrow> (Failure 400 ''Invalid query parameters'', c)
      | Some v \<Rightarrow>
          if \<not> dbClient then (Failure 500 ''Database client not available'', c)
          else (case searchLogs ev c v of
                  (Inl e, c') \<Rightarrow> (Failure 500 ''Query failed'', c')
                | (Inr r, c') \<Rightarrow> (page_response r (q_limit v) (q_offset v), c')))"

text \<open>
  The router: a method and path that match no route fall through to the framework's
  404. \<open>dbClient\<close> says that \<open>req.dbClient\<close> is set, which each route tests after
  validation.
\<close>

definition auditRoutes :: "env \<Rightarrow> request \<Rightarrow> bool \<Rightarrow> client \<Rightarrow> response \<times> client" where
  "auditRoutes ev req dbClient c =
     (case (http_method req, path req) of
        (POST, Logs_Batch) \<Rightarrow> post_logs_batch ev req dbClient c
      | (GET, Logs_User emp) \<Rightarrow> get_logs_user ev req emp dbClient c
      | (GET, Logs_App app) \<Rightarrow> get_logs_app ev req app dbClient c
      | (GET, Logs_Search) \<Rightarrow> get_logs_search ev req dbClient c
      | _ \<Rightarrow> (Not_Found, c))"

text \<open>\<open>app.use('/audit', auth, tenantContext, auditRoutes)\<close>.\<close>

definition audit :: "env \<Rightarrow> request \<Rightarrow> client \<Rightarrow> exchange" where
  "audit ev req c =
     (case auth ev req of
        Inl r \<Rightarrow> \<lparr> answered = Some r, on_finish = False, pg = respond r c \<rparr>
      | Inr v \<Rightarrow> finish (tenantContext ev (Some v) (auditRoutes ev req) c))"

section \<open>What a request leaves on the client\<close>

text \<open>
  The pool's side of a journal: the clients taken and the clients given back, in order.
\<close>

definition pool_events :: "event list \<Rightarrow> event list" where
  "pool_events es = filter (\<lambda>e. e = Connect \<or> e = Release) es"


text \<open>
  The client as the routes receive it when the tenant set-up succeeds: taken from the
  pool, the marker set and read back.
\<close>

definition bound_to :: "string \<Rightarrow> client \<Rightarrow> client" where
  "bound_to t c =
     c\<lparr>journal := journal c @ [Connect, Query (set_tenant_statement t),
                                 Query (Sql current_setting_sql [])],
       current_tenant := Some t\<rparr>"

text \<open>
  The two queries a retrieval request leads to, when its route validates it: the
  builder of the count query and the builder of the page query, as the service function
  of the route makes them from the filters the route hands over.
\<close>

definition retrieval_queries :: "env \<Rightarrow> request \<Rightarrow> (builder \<times> builder) option" where
  "retrieval_queries ev req =
     (case (http_method req, path req) of
        (GET, Logs_User emp) \<Rightarrow>
          map_option
            (\<lambda>v. let f = \<lparr> q_comp_code = q_comp_code v, q_limit = q_limit v, q_offset = q_offset v,
                            q_from = q_from v, q_to = q_to v, uf_emp_id = emp \<rparr>
                 in (getUserLogs_count ev f, getUserLogs_page ev f))
            (querySchema_parse ev (query_string req))
      | (GET, Logs_App app) \<Rightarrow>
          map_option
            (\<lambda>v. let f = \<lparr> q_comp_code = q_comp_code v, q_limit = q_limit v, q_offset = q_offset v,
                            q_from = q_from v, q_to = q_to v, af_source_app = app,
                            af_source_function =
                              Option.bind (map_of (query_string req) ''source_function'') z_string \<rparr>
                 in (getAppLogs_count ev f, getAppLogs_page ev f))
            (querySchema_parse ev (query_string req))
      | (GET, Logs_Search) \<Rightarrow>
          map_option (\<lambda>v. (searchLogs_count ev v, searchLogs_page ev v))
            (searchSchema_parse ev (query_string req))
      | _ \<Rightarrow> None)"

text \<open>
  \<open>srt\<close> holds the rows of \<open>m\<close>, each as often as \<open>m\<close> does, latest first. Rows of equal
  creation time may come in any order.
\<close>

definition latest_first :: "row list \<Rightarrow> row list \<Rightarrow> bool" where
  "latest_first m srt =
     ((\<forall>x. count_list srt x = count_list m x)
      \<and> sorted_wrt (\<lambda>a b. created_at b \<le> created_at a) srt)"

section \<open>Example data\<close>

definition example_env :: env where
  "example_env =
     \<lparr> fault = (\<lambda>n. False),
       uuidv4 = (\<lambda>n. ''4f9d2c1'' @ [''0123456789abcdef'' ! (n mod 16)] @ ''-7c1e-4b1f-9a57-3d2f6e8b0c11''),
       now = (\<lambda>n. 1793664000000 + int n),
       new_Date = (\<lambda>s. 1793577600000),
       toISOString = (\<lambda>t. ''2026-11-03T00:00:00.000Z''),
       js_Number = (\<lambda>v. case v of
                          JStr s \<Rightarrow> if s \<noteq> [] \<and> list_all is_digit s
                                    then Some (int (digits_value s)) else None
                        | _ \<Rightarrow> None),
       js_String = (\<lambda>v. ''[object Object]''),
       is_datetime = (\<lambda>s. s = ''2026-11-02T00:00:00Z''),
       API_KEYS = [''COMP001'' \<mapsto> ''super-secret-key-comp001-2026''] \<rparr>"

definition check_in :: log_entry where
  "check_in =
     \<lparr> log_emp_id = Some ''EMP123'', log_process_id = Some ''proc-0001'',
       log_source_app = ''MOBILE_APP'', log_source_function = Some ''CHECK_IN'',
       log_reference_id = None, log_action = ''CHECK_IN_SUCCESS'',
       log_description = Some ''User checked in at office'', log_created_at = None,
       log_metadata = JObj [(''device'', JStr ''Android'')] \<rparr>"

definition submit_leave :: log_entry where
  "submit_leave =
     \<lparr> log_emp_id = None, log_process_id = Some ''proc-0002'',
       log_source_app = ''MOBILE_APP'', log_source_function = None,
       log_reference_id = None, log_action = ''SUBMIT_LEAVE'',
       log_description = None, log_created_at = Some ''2026-11-02T00:00:00Z'',
       log_metadata = JObj [(''days'', JNum 3 0)] \<rparr>"

definition example_batch :: batch_payload where
  "example_batch =
     \<lparr> p_comp_code = ''COMP001'', p_app_version = Some ''1.2.3'', p_created_by = ''MOBILE_USER'',
       p_logs = [check_in, submit_leave] \<rparr>"

definition bound_client :: client where
  "bound_client = \<lparr> committed = [], txn = Idle, current_tenant = Some ''COMP001'', journal = [] \<rparr>"

definition stored_client :: client where
  "stored_client = snd (storeBatchLogs example_env bound_client example_batch)"

definition second_insert_fails :: env where
  "second_insert_fails = example_env\<lparr>fault := (\<lambda>n. n = 2)\<rparr>"

definition blank_id_batch :: batch_payload where
  "blank_id_batch =
     \<lparr> p_comp_code = ''COMP001'', p_app_version = None, p_created_by = ''SYSTEM'',
       p_logs = [check_in\<lparr>log_process_id := Some []\<rparr>] \<rparr>"

definition first_submission :: "(error + batch_result) \<times> client" where
  "first_submission = storeBatchLogs example_env bound_client blank_id_batch"

definition second_submission :: "(error + batch_result) \<times> client" where
  "second_submission = storeBatchLogs example_env (snd first_submission) blank_id_batch"

definition row_a :: row where
  "row_a =
     \<lparr> process_id = ''proc-0001'', comp_code = ''COMP001'', emp_id = Some ''EMP123'',
       source_app = ''MOBILE_APP'', source_function = Some ''CHECK_IN'', reference_id = None,
       action = ''CHECK_IN_SUCCESS'', description = Some ''User checked in at office'',
       metadata = JObj [(''device'', JStr ''Android'')], created_by = ''MOBILE_USER'',
       created_at = 1793664000001, app_version = Some ''1.2.3'',
       batch_id = Some ''BATCH_20261103_4f9d2c10'' \<rparr>"

definition row_b :: row where
  "row_b =
     \<lparr> process_id = ''proc-7001'', comp_code = ''COMP002'', emp_id = Some ''EMP123'',
       source_app = ''MOBILE_APP'', source_function = Some ''CHECK_IN'', reference_id = None,
       action = ''CHECK_IN_SUCCESS'', description = None,
       metadata = JObj [], created_by = ''SYSTEM'',
       created_at = 1793664000500, app_version = None,
       batch_id = Some ''BATCH_20261103_0be1a5c2'' \<rparr>"

definition row_c :: row where
  "row_c =
     \<lparr> process_id = ''proc-0003'', comp_code = ''COMP001'', emp_id = Some ''EMP123'',
       source_app = ''MOBILE_APP'', source_function = None, reference_id = None,
       action = ''SUBMIT_LEAVE'', description = None,
       metadata = JObj [(''days'', JNum 3 0)], created_by = ''MOBILE_USER'',
       created_at = 1793664000900, app_version = Some ''1.2.3'',
       batch_id = Some ''BATCH_20261103_4f9d2c10'' \<rparr>"

definition pooled_client :: client where
  "pooled_client =
     \<lparr> committed = [row_a, row_b, row_c], txn = Idle, current_tenant = Some ''COMP002'',
       journal = [] \<rparr>"

definition search_everything :: request where
  "search_everything =
     \<lparr> http_method = GET, path = Logs_Search,
       x_api_key = Some ''super-secret-key-comp001-2026'', body = JObj [],
       query_string = [(''comp_code'', JStr ''COMP001'')] \<rparr>"

definition second_of_employee :: request where
  "second_of_employee =
     \<lparr> http_method = GET, path = Logs_User ''EMP123'',
       x_api_key = Some ''super-secret-key-comp001-2026'', body = JObj [],
       query_string = [(''comp_code'', JStr ''COMP001''), (''limit'', JStr ''1''),
                       (''offset'', JStr ''1'')] \<rparr>"

definition app_by_function :: request where
  "app_by_function =
     \<lparr> http_method = GET, path = Logs_App ''MOBILE_APP'',
       x_api_key = Some ''super-secret-key-comp001-2026'', body = JObj [],
       query_string = [(''comp_code'', JStr ''COMP001''), (''source_function'', JStr ''CHECK_IN'')] \<rparr>"

definition app_of_mobile :: request where
  "app_of_mobile =
     \<lparr> http_method = GET, path = Logs_App ''MOBILE_APP'',
       x_api_key = Some ''super-secret-key-comp001-2026'', body = JObj [],
       query_string = [(''comp_code'', JStr ''COMP001'')] \<rparr>"

definition search_unquoted_metadata :: request where
  "search_unquoted_metadata =
     \<lparr> http_method = GET, path = Logs_Search,
       x_api_key = Some ''super-secret-key-comp001-2026'', body = JObj [],
       query_string = [(''metadata'', JStr ''{device:Android}''), (''comp_code'', JStr ''COMP001'')] \<rparr>"

definition search_empty_metadata :: request where
  "search_empty_metadata =
     \<lparr> http_method = GET, path = Logs_Search,
       x_api_key = Some ''super-secret-key-comp001-2026'', body = JObj [],
       query_string = [(''metadata'', JStr []), (''comp_code'', JStr ''COMP001'')] \<rparr>"

definition minimal_entry :: json where
  "minimal_entry = JObj [(''source_app'', JStr ''MOBILE_APP''), (''action'', JStr ''CHECK_IN_SUCCESS'')]"

definition oversized_batch :: request where
  "oversized_batch =
     \<lparr> http_method = POST, path = Logs_Batch,
       x_api_key = Some ''super-secret-key-comp001-2026'',
       body = JObj [(''comp_code'', JStr ''COMP001''), (''logs'', JArr (replicate 1001 minimal_entry))],
       query_string = [] \<rparr>"

section \<open>The JSON parser\<close>

text \<open>
  A parse consumes tokens: what is left is shorter than what was given.
\<close>

lemma parse_value_Nil: "parse_value [] = None"
  by (subst parse_value.simps) simp

lemma parse_value_Cons:
  "parse_value (t # r) =
     (case t of
        T_Null \<Rightarrow> Some (JNull, r)
      | T_True \<Rightarrow> Some (JBool True, r)
      | T_False \<Rightarrow> Some (JBool False, r)
      | T_Number m e \<Rightarrow> Some (JNum m e, r)
      | T_String s \<Rightarrow> Some (JStr s, r)
      | T_LBracket \<Rightarrow>
          (case r of
             T_RBracket # r' \<Rightarrow> Some (JArr [], r')
           | _ \<Rightarrow> map_option (\<lambda>(xs, r'). (JArr xs, r')) (parse_elements r))
      | T_LBrace \<Rightarrow>
          (case r of
             T_RBrace # r' \<Rightarrow> Some (JObj [], r')
           | _ \<Rightarrow> map_option (\<lambda>(kvs, r'). (JObj kvs, r')) (parse_members r))
      | _ \<Rightarrow> None)"
  by (subst parse_value.simps) simp

lemma parse_value_shrinks_step:
  assumes el: "\<And>us xs r. length us < length ts \<Longrightarrow> parse_elements us = Some (xs, r) \<Longrightarrow> length r < length us"
    and me: "\<And>us kvs r. length us < length ts \<Longrightarrow> parse_members us = Some (kvs, r) \<Longrightarrow> length r < length us"
    and p: "parse_value ts = Some (v, r)"
  shows "length r < length ts"
proof (cases ts)
  case Nil
  then show ?thesis using p by (simp add: parse_value_Nil)
next
  case (Cons t rest)
  have lt: "length rest < length ts" using Cons by simp
  have p': "parse_value (t # rest) = Some (v, r)" using p Cons by simp
  show ?thesis
  proof (cases t)
    case T_LBracket
    show ?thesis
    proof (cases "\<exists>r'. rest = T_RBracket # r'")
      case True
      then show ?thesis using p' T_LBracket Cons by (auto simp: parse_value_Cons)
    next
      case False
      then have "parse_value (t # rest) = map_option (\<lambda>(xs, r'). (JArr xs, r')) (parse_elements rest)"
        using T_LBracket by (cases rest) (auto simp: parse_value_Cons split: token.splits)
      then obtain xs where "parse_elements rest = Some (xs, r)" using p' by auto
      from el[OF lt this] lt show ?thesis by simp
    qed
  next
    case T_LBrace
    show ?thesis
    proof (cases "\<exists>r'. rest = T_RBrace # r'")
      case True
      then show ?thesis using p' T_LBrace Cons by (auto simp: parse_value_Cons)
    next
      case False
      then have "parse_value (t # rest) = map_option (\<lambda>(kvs, r'). (JObj kvs, r')) (parse_members rest)"
        using T_LBrace by (cases rest) (auto simp: parse_value_Cons split: token.splits)
      then obtain kvs where "parse_members rest = Some (kvs, r)" using p' by auto
      from me[OF lt this] lt show ?thesis by simp
    qed
  qed (use p' Cons in \<open>auto simp: parse_value_Cons\<close>)
qed


lemma parse_shrinks_all:
  "(\<forall>v r. parse_value ts = Some (v, r) \<longrightarrow> length r < length ts)
   \<and> (\<forall>xs r. parse_elements ts = Some (xs, r) \<longrightarrow> length r < length ts)
   \<and> (\<forall>kvs r. parse_members ts = Some (kvs, r) \<longrightarrow> length r < length ts)"
proof (induction "length ts" arbitrary: ts rule: less_induct)
  case less
  have el: "length r < length us" if "length us < length ts" "parse_elements us = Some (xs, r)"
    for us xs r
    using less[OF that(1)] that(2) by blast
  have me: "length r < length us" if "length us < length ts" "parse_members us = Some (kvs, r)"
    for us kvs r
    using less[OF that(1)] that(2) by blast
  have va: "length r < length us" if "length us < length ts" "parse_value us = Some (v, r)"
    for us v r
    using less[OF that(1)] that(2) by blast
  have v: "length r < length ts" if "parse_value ts = Some (v, r)" for v r
  proof (rule parse_value_shrinks_step[of ts])
    show "parse_value ts = Some (v, r)" by (rule that)
  qed (use el me in blast)+
  have e: "length r < length ts" if pe: "parse_elements ts = Some (xs, r)" for xs r
  proof (cases "parse_value ts")
    case None
    then show ?thesis using pe by (simp add: parse_elements.simps[of ts])
  next
    case (Some a)
    obtain w r0 where w: "parse_value ts = Some (w, r0)" using Some by (cases a) simp
    have l0: "length r0 < length ts" using v[OF w] .
    show ?thesis
    proof (cases r0)
      case Nil
      then show ?thesis using pe w by (simp add: parse_elements.simps[of ts])
    next
      case (Cons t r')
      have l1: "length r' < length ts" using l0 Cons by simp
      have pe': "(case t of
                    T_Comma \<Rightarrow> map_option (\<lambda>(xs, r''). (w # xs, r'')) (parse_elements r')
                  | T_RBracket \<Rightarrow> Some ([w], r')
                  | _ \<Rightarrow> None) = Some (xs, r)"
        using pe w Cons l1 by (simp add: parse_elements.simps[of ts] split: token.splits)
      show ?thesis
      proof (cases t)
        case T_Comma
        then obtain ys where "parse_elements r' = Some (ys, r)" using pe' by auto
        from el[OF l1 this] l1 show ?thesis by simp
      next
        case T_RBracket
        then show ?thesis using pe' l1 by simp
      qed (use pe' in simp_all)
    qed
  qed
  have m: "length r < length ts" if pm: "parse_members ts = Some (kvs, r)" for kvs r
  proof -
    obtain k rest where ts: "ts = T_String k # T_Colon # rest"
      using pm by (auto simp: parse_members.simps[of ts] split: list.splits token.splits)
    have lr: "length rest < length ts" using ts by simp
    have pm0: "parse_members (T_String k # T_Colon # rest) = Some (kvs, r)" using pm ts by simp
    show ?thesis
    proof (cases "parse_value rest")
      case None
      then show ?thesis using pm0 by (simp add: parse_members.simps[of "T_String k # T_Colon # rest"])
    next
      case (Some a)
      obtain w r1 where w: "parse_value rest = Some (w, r1)" using Some by (cases a) simp
      have l0: "length r1 < length rest" using va[OF lr w] .
      show ?thesis
      proof (cases r1)
        case Nil
        then show ?thesis using pm0 w
          by (simp add: parse_members.simps[of "T_String k # T_Colon # rest"])
      next
        case (Cons t r2)
        have l1: "length r2 < length ts" using l0 lr Cons by simp
        have l2: "length r2 < Suc (Suc (length rest))" using l0 Cons by simp
        have pm': "(case t of
                      T_Comma \<Rightarrow> map_option (\<lambda>(kvs, r3). ((k, w) # kvs, r3)) (parse_members r2)
                    | T_RBrace \<Rightarrow> Some ([(k, w)], r2)
                    | _ \<Rightarrow> None) = Some (kvs, r)"
          using pm0 w Cons l2
          by (simp add: parse_members.simps[of "T_String k # T_Colon # rest"] split: token.splits)
        show ?thesis
        proof (cases t)
          case T_Comma
          then obtain ys where "parse_members r2 = Some (ys, r)" using pm' by auto
          from me[OF l1 this] l1 show ?thesis by simp
        next
          case T_RBrace
          then show ?thesis using pm' l1 by simp
        qed (use pm' in simp_all)
      qed
    qed
  qed
  show ?case using v e m by blast
qed

lemma parse_value_shrinks: "parse_value ts = Some (v, r) \<Longrightarrow> length r < length ts"
  using parse_shrinks_all by blast

text \<open>So the two length tests in the parser never refuse anything:\<close>

lemma parse_elements_unguarded:
  "parse_elements ts =
     (case parse_value ts of
        None \<Rightarrow> None
      | Some (v, r) \<Rightarrow>
          (case r of
             T_Comma # r' \<Rightarrow> map_option (\<lambda>(xs, r''). (v # xs, r'')) (parse_elements r')
           | T_RBracket # r' \<Rightarrow> Some ([v], r')
           | _ \<Rightarrow> None))"
proof (cases "parse_value ts")
  case None
  then show ?thesis by (simp add: parse_elements.simps[of ts])
next
  case (Some a)
  obtain v r where a: "parse_value ts = Some (v, r)" using Some by (cases a) simp
  have l: "length r < length ts" using parse_value_shrinks[OF a] .
  show ?thesis
  proof (cases r)
    case Nil
    then show ?thesis using a by (simp add: parse_elements.simps[of ts])
  next
    case (Cons t r')
    then have "length r' < length ts" using l by simp
    then show ?thesis using a Cons
      by (cases t) (simp_all add: parse_elements.simps[of ts])
  qed
qed

lemma parse_members_unguarded:
  "parse_members (T_String k # T_Colon # r) =
     (case parse_value r of
        None \<Rightarrow> None
      | Some (v, r1) \<Rightarrow>
          (case r1 of
             T_Comma # r2 \<Rightarrow> map_option (\<lambda>(kvs, r3). ((k, v) # kvs, r3)) (parse_members r2)
           | T_RBrace # r2 \<Rightarrow> Some ([(k, v)], r2)
           | _ \<Rightarrow> None))"
proof (cases "parse_value r")
  case None
  then show ?thesis by (simp add: parse_members.simps[of "T_String k # T_Colon # r"])
next
  case (Some a)
  obtain v r1 where a: "parse_value r = Some (v, r1)" using Some by (cases a) simp
  have l: "length r1 < length r" using parse_value_shrinks[OF a] .
  show ?thesis
  proof (cases r1)
    case Nil
    then show ?thesis using a by (simp add: parse_members.simps[of "T_String k # T_Colon # r"])
  next
    case (Cons t r2)
    then have "length r2 < Suc (Suc (length r))" using l by simp
    then show ?thesis using a Cons
      by (cases t) (simp_all add: parse_members.simps[of "T_String k # T_Colon # r"])
  qed
qed

section \<open>Properties of the statements\<close>

lemma fail_txn_simps [simp]:
  "committed (fail_txn c) = committed c"
  "journal (fail_txn c) = journal c"
  "current_tenant (fail_txn c) = current_tenant c"
  by (auto simp: fail_txn_def split: txn_state.splits)

lemma exec_journal: "exec st c = Inr (r, c') \<Longrightarrow> journal c' = journal c"
  by (auto simp: exec_def exec_sql_def exec_insert_def exec_count_def exec_page_def store_row_def
           split: statement.splits if_splits option.splits txn_state.splits param.splits)

lemma query_journal: "journal (snd (query ev st c)) = journal c @ [Query st]"
  by (auto simp: query_def Let_def dest: exec_journal split: sum.splits)

lemma query_tick: "query ev st c = (res, c') \<Longrightarrow> tick c' = Suc (tick c)"
  using query_journal[of ev st c] by (simp add: tick_def)

text \<open>Statements by statement: what the committed table and the transaction become.\<close>

lemma query_fault:
  "fault ev (tick c) \<Longrightarrow> \<exists>c'. query ev st c = (Inl Store_Unavailable, c') \<and> committed c' = committed c"
  by (simp add: query_def Let_def)

lemma query_rollback_committed:
  "committed (snd (query ev (Sql ''ROLLBACK'' []) c)) = committed c"
  by (simp add: query_def Let_def exec_def exec_sql_def)

lemma query_begin:
  "query ev (Sql ''BEGIN'' []) c = (res, c') \<Longrightarrow>
     committed c' = committed c \<and> current_tenant c' = current_tenant c \<and>
     (case res of
        Inl e \<Rightarrow> True
      | Inr r \<Rightarrow> txn c' = (case txn c of Idle \<Rightarrow> Active (committed c) | t \<Rightarrow> t) \<and> txn c \<noteq> Failed)"
  by (auto simp: query_def Let_def exec_def exec_sql_def split: if_splits txn_state.splits)

lemma query_begin_ok:
  "\<not> fault ev (tick c) \<Longrightarrow> txn c \<noteq> Failed \<Longrightarrow> \<exists>r c'. query ev (Sql ''BEGIN'' []) c = (Inr r, c')"
  by (auto simp: query_def Let_def exec_def exec_sql_def split: if_splits txn_state.splits)

lemma query_insert_active:
  "txn c = Active w \<Longrightarrow> query ev (Insert_Log r) c = (res, c') \<Longrightarrow>
     committed c' = committed c \<and> current_tenant c' = current_tenant c \<and>
     (case res of
        Inl e \<Rightarrow> txn c' = Failed
      | Inr x \<Rightarrow> txn c' = Active (if process_id r \<in> set (map process_id w) then w else w @ [r]))"
  by (auto simp: query_def Let_def exec_def exec_insert_def store_row_def table_def fail_txn_def
           split: if_splits option.splits)

lemma query_insert_ok:
  "\<not> fault ev (tick c) \<Longrightarrow> txn c = Active w \<Longrightarrow> current_tenant c = Some (comp_code r) \<Longrightarrow>
     \<exists>x c'. query ev (Insert_Log r) c = (Inr x, c')"
  by (auto simp: query_def Let_def exec_def exec_insert_def)

lemma query_commit:
  "query ev (Sql ''COMMIT'' []) c = (res, c') \<Longrightarrow>
     current_tenant c' = current_tenant c \<and>
     (case res of
        Inl e \<Rightarrow> committed c' = committed c
      | Inr x \<Rightarrow> txn c' = Idle \<and> committed c' = table c)"
  by (auto simp: query_def Let_def exec_def exec_sql_def table_def split: if_splits txn_state.splits)

lemma query_commit_ok:
  "\<not> fault ev (tick c) \<Longrightarrow> \<exists>x c'. query ev (Sql ''COMMIT'' []) c = (Inr x, c')"
  by (auto simp: query_def Let_def exec_def exec_sql_def)

lemma insert_logs_active:
  "txn c = Active w \<Longrightarrow> insert_logs ev p bid ls c = (res, c') \<Longrightarrow>
     committed c' = committed c \<and> current_tenant c' = current_tenant c \<and>
     (case res of Inl e \<Rightarrow> txn c' = Failed | Inr x \<Rightarrow> (\<exists>w'. txn c' = Active w'))"
proof (induction ls arbitrary: c w)
  case Nil
  then show ?case by auto
next
  case (Cons l ls)
  obtain r1 c1 where q: "query ev (Insert_Log (log_row ev (tick c) p bid l)) c = (r1, c1)"
    by (cases "query ev (Insert_Log (log_row ev (tick c) p bid l)) c")
  note a = query_insert_active[OF Cons.prems(1) q]
  show ?case
  proof (cases r1)
    case (Inl e)
    then show ?thesis using a q Cons.prems(2) by auto
  next
    case (Inr x)
    then obtain w1 where w1: "txn c1 = Active w1" using a by auto
    have "insert_logs ev p bid ls c1 = (res, c')"
      using Cons.prems(2) q Inr by simp
    from Cons.IH[OF w1 this] a show ?thesis by simp
  qed
qed

lemma rollback_and_throw_committed:
  "rollback_and_throw ev e c = (res, c') \<Longrightarrow> isl res \<and> committed c' = committed c"
  using query_rollback_committed[of ev c]
  by (auto simp: rollback_and_throw_def split: prod.splits sum.splits)

lemma storeBatchLogs_error_committed:
  assumes "storeBatchLogs ev c p = (Inl e, c')"
  shows "committed c' = committed c"
proof -
  let ?bid = "new_batch_id ev (tick c)"
  obtain r1 c1 where b: "query ev (Sql ''BEGIN'' []) c = (r1, c1)"
    by (cases "query ev (Sql ''BEGIN'' []) c")
  note qb = query_begin[OF b]
  show ?thesis
  proof (cases r1)
    case (Inl e1)
    then have "rollback_and_throw ev e1 c1 = (Inl e, c')"
      using assms b by (simp add: storeBatchLogs_def Let_def)
    from rollback_and_throw_committed[OF this] qb show ?thesis by simp
  next
    case (Inr x1)
    then obtain w where w: "txn c1 = Active w"
      using qb by (auto split: txn_state.splits)
    obtain r2 c2 where i: "insert_logs ev p ?bid (p_logs p) c1 = (r2, c2)"
      by (cases "insert_logs ev p ?bid (p_logs p) c1")
    note qi = insert_logs_active[OF w i]
    show ?thesis
    proof (cases r2)
      case (Inl e2)
      then have "rollback_and_throw ev e2 c2 = (Inl e, c')"
        using assms b Inr i by (simp add: storeBatchLogs_def Let_def)
      from rollback_and_throw_committed[OF this] qi qb show ?thesis by simp
    next
      case r2: (Inr x2)
      obtain r3 c3 where cm: "query ev (Sql ''COMMIT'' []) c2 = (r3, c3)"
        by (cases "query ev (Sql ''COMMIT'' []) c2")
      note qc = query_commit[OF cm]
      show ?thesis
      proof (cases r3)
        case (Inl e3)
        then have "rollback_and_throw ev e3 c3 = (Inl e, c')"
          using assms b Inr i r2 cm by (simp add: storeBatchLogs_def Let_def)
        from rollback_and_throw_committed[OF this] qi qb qc Inl show ?thesis by simp
      next
        case (Inr x3)
        then show ?thesis
          using assms b \<open>r1 = Inr x1\<close> i r2 cm by (simp add: storeBatchLogs_def Let_def)
      qed
    qed
  qed
qed

lemma insert_logs_fault:
  "i < length ls \<Longrightarrow> fault ev (tick c + i) \<Longrightarrow> isl (fst (insert_logs ev p bid ls c))"
proof (induction ls arbitrary: c i)
  case Nil
  then show ?case by simp
next
  case (Cons l ls)
  obtain r1 c1 where q: "query ev (Insert_Log (log_row ev (tick c) p bid l)) c = (r1, c1)"
    by (cases "query ev (Insert_Log (log_row ev (tick c) p bid l)) c")
  show ?case
  proof (cases r1)
    case (Inl e)
    then show ?thesis using q by simp
  next
    case (Inr x)
    have i0: "i \<noteq> 0"
    proof
      assume "i = 0"
      then have "fault ev (tick c)" using Cons.prems(2) by simp
      from query_fault[OF this, of "Insert_Log (log_row ev (tick c) p bid l)"]
      show False using q Inr by auto
    qed
    then obtain j where j: "i = Suc j" by (cases i) auto
    have "fault ev (tick c1 + j)" using Cons.prems(2) j query_tick[OF q] by simp
    moreover have "j < length ls" using Cons.prems(1) j by simp
    ultimately have "isl (fst (insert_logs ev p bid ls c1))" using Cons.IH by blast
    then show ?thesis using q Inr by simp
  qed
qed

lemma rollback_and_throw_isl: "isl (fst (rollback_and_throw ev e c))"
  by (auto simp: rollback_and_throw_def split: prod.splits sum.splits)

lemma storeBatchLogs_failing_entry:
  assumes "i < length (p_logs p)" and "fault ev (tick c + Suc i)"
  shows "isl (fst (storeBatchLogs ev c p))"
proof -
  let ?bid = "new_batch_id ev (tick c)"
  obtain r1 c1 where b: "query ev (Sql ''BEGIN'' []) c = (r1, c1)"
    by (cases "query ev (Sql ''BEGIN'' []) c")
  show ?thesis
  proof (cases r1)
    case (Inl e1)
    then show ?thesis using b rollback_and_throw_isl by (simp add: storeBatchLogs_def Let_def)
  next
    case (Inr x1)
    have "fault ev (tick c1 + i)" using assms(2) query_tick[OF b] by simp
    then have "isl (fst (insert_logs ev p ?bid (p_logs p) c1))"
      using insert_logs_fault[OF assms(1)] by blast
    then obtain e2 c2 where "insert_logs ev p ?bid (p_logs p) c1 = (Inl e2, c2)"
      by (cases "insert_logs ev p ?bid (p_logs p) c1") (auto simp: isl_def)
    then show ?thesis using b Inr rollback_and_throw_isl by (simp add: storeBatchLogs_def Let_def)
  qed
qed

lemma log_row_process_id:
  "truthy (log_process_id l) = Some s \<Longrightarrow> process_id (log_row ev n p bid l) = s"
  by (simp add: log_row_def)

lemma log_row_comp_code [simp]: "comp_code (log_row ev n p bid l) = p_comp_code p"
  by (simp add: log_row_def)

lemma insert_logs_ok:
  assumes "\<forall>n. \<not> fault ev n" and "current_tenant c = Some (p_comp_code p)" and "txn c = Active w"
  shows "\<exists>c' w'. insert_logs ev p bid ls c = (Inr (), c') \<and> txn c' = Active w' \<and>
           committed c' = committed c \<and> current_tenant c' = current_tenant c \<and>
           set (map process_id w) \<subseteq> set (map process_id w') \<and>
           (\<forall>l\<in>set ls. \<forall>s. truthy (log_process_id l) = Some s \<longrightarrow> s \<in> set (map process_id w'))"
  using assms(2,3)
proof (induction ls arbitrary: c w)
  case Nil
  then show ?case by auto
next
  case (Cons l ls)
  let ?r = "log_row ev (tick c) p bid l"
  have nf: "\<not> fault ev (tick c)" using assms(1) by simp
  have t: "current_tenant c = Some (comp_code ?r)" using Cons.prems(1) by simp
  obtain x c1 where q: "query ev (Insert_Log ?r) c = (Inr x, c1)"
    using query_insert_ok[OF nf Cons.prems(2) t] by blast
  note a = query_insert_active[OF Cons.prems(2) q]
  let ?w1 = "if process_id ?r \<in> set (map process_id w) then w else w @ [?r]"
  have w1: "txn c1 = Active ?w1" using a by simp
  have t1: "current_tenant c1 = Some (p_comp_code p)" using a Cons.prems(1) by simp
  obtain c' w' where ih: "insert_logs ev p bid ls c1 = (Inr (), c')" "txn c' = Active w'"
      "committed c' = committed c1" "current_tenant c' = current_tenant c1"
      "set (map process_id ?w1) \<subseteq> set (map process_id w')"
      "\<forall>l\<in>set ls. \<forall>s. truthy (log_process_id l) = Some s \<longrightarrow> s \<in> set (map process_id w')"
    using Cons.IH[OF t1 w1] by blast
  have in1: "process_id ?r \<in> set (map process_id ?w1)" by auto
  have sub: "set (map process_id w) \<subseteq> set (map process_id ?w1)" by auto
  have "insert_logs ev p bid (l # ls) c = (Inr (), c')" using q ih(1) by simp
  moreover have "\<forall>s. truthy (log_process_id l) = Some s \<longrightarrow> s \<in> set (map process_id w')"
    using in1 ih(5) log_row_process_id by fastforce
  ultimately show ?case using ih a sub by (intro exI[of _ c'] exI[of _ w']) auto
qed

lemma insert_logs_known:
  assumes "\<forall>n. \<not> fault ev n" and "current_tenant c = Some (p_comp_code p)" and "txn c = Active w"
    and "\<forall>l\<in>set ls. \<exists>s. truthy (log_process_id l) = Some s \<and> s \<in> set (map process_id w)"
  shows "\<exists>c'. insert_logs ev p bid ls c = (Inr (), c') \<and> txn c' = Active w \<and>
           committed c' = committed c \<and> current_tenant c' = current_tenant c"
  using assms(2,3,4)
proof (induction ls arbitrary: c)
  case Nil
  then show ?case by auto
next
  case (Cons l ls)
  let ?r = "log_row ev (tick c) p bid l"
  have nf: "\<not> fault ev (tick c)" using assms(1) by simp
  have t: "current_tenant c = Some (comp_code ?r)" using Cons.prems(1) by simp
  obtain x c1 where q: "query ev (Insert_Log ?r) c = (Inr x, c1)"
    using query_insert_ok[OF nf Cons.prems(2) t] by blast
  note a = query_insert_active[OF Cons.prems(2) q]
  have "process_id ?r \<in> set (map process_id w)"
    using Cons.prems(3) log_row_process_id by fastforce
  then have w1: "txn c1 = Active w" using a by simp
  have t1: "current_tenant c1 = Some (p_comp_code p)" using a Cons.prems(1) by simp
  have rest: "\<forall>l\<in>set ls. \<exists>s. truthy (log_process_id l) = Some s \<and> s \<in> set (map process_id w)"
    using Cons.prems(3) by simp
  obtain c' where ih: "insert_logs ev p bid ls c1 = (Inr (), c')" "txn c' = Active w"
      "committed c' = committed c1" "current_tenant c' = current_tenant c1"
    using Cons.IH[OF t1 w1 rest] by blast
  then show ?case using q a by auto
qed

section \<open>The batch store\<close>

lemma storeBatchLogs_total:
  "storeBatchLogs ev c p = (Inr r, c') \<Longrightarrow> total_received r = length (p_logs p)"
  by (auto simp: storeBatchLogs_def rollback_and_throw_def Let_def split: prod.splits sum.splits)

text \<open>
  C7. A successful \<open>storeBatchLogs\<close> returns as \<open>total_received\<close> the number of
  entries of the submitted batch, whatever the inserts did: the witness below resubmits
  a batch whose two entries are both already stored, no row is written, and the call
  still returns 2.
\<close>

theorem total_received_counts_submitted:
  assumes "fst (storeBatchLogs ev c p) = Inr r"
  shows "total_received r = length (p_logs p)"
proof -
  obtain c' where "storeBatchLogs ev c p = (Inr r, c')"
    using assms by (cases "storeBatchLogs ev c p") auto
  then show ?thesis by (rule storeBatchLogs_total)
qed

theorem total_received_counts_submitted_witness:
  "fst (storeBatchLogs example_env stored_client example_batch) =
     Inr \<lparr> res_batch_id = ''BATCH_20261103_4f9d2c14'', total_received = 2 \<rparr>
   \<and> committed (snd (storeBatchLogs example_env stored_client example_batch)) = committed stored_client
   \<and> total_received \<lparr> res_batch_id = ''BATCH_20261103_4f9d2c14'', total_received = 2 \<rparr>
       = length (p_logs example_batch)"
proof -
  have h: "fst (storeBatchLogs example_env stored_client example_batch) =
     Inr \<lparr> res_batch_id = ''BATCH_20261103_4f9d2c14'', total_received = 2 \<rparr>"
    by code_simp
  have k: "committed (snd (storeBatchLogs example_env stored_client example_batch)) = committed stored_client"
    by code_simp
  show ?thesis using h k total_received_counts_submitted[OF h] by simp
qed

lemma query_insert_refused:
  "current_tenant c \<noteq> Some (comp_code r) \<Longrightarrow> isl (fst (query ev (Insert_Log r) c))"
  by (simp add: query_def Let_def exec_def exec_insert_def split: option.splits)

lemma storeBatchLogs_policy_violation:
  assumes "p_logs p \<noteq> []" and "current_tenant c \<noteq> Some (p_comp_code p)"
  shows "isl (fst (storeBatchLogs ev c p))"
proof -
  let ?bid = "new_batch_id ev (tick c)"
  obtain l ls where ls: "p_logs p = l # ls" using assms(1) by (cases "p_logs p") auto
  obtain r1 c1 where b: "query ev (Sql ''BEGIN'' []) c = (r1, c1)"
    by (cases "query ev (Sql ''BEGIN'' []) c")
  show ?thesis
  proof (cases r1)
    case (Inl e1)
    then show ?thesis using b rollback_and_throw_isl by (simp add: storeBatchLogs_def Let_def)
  next
    case (Inr x1)
    have "current_tenant c1 \<noteq> Some (comp_code (log_row ev (tick c1) p ?bid l))"
      using query_begin[OF b] assms(2) by simp
    then have "isl (fst (query ev (Insert_Log (log_row ev (tick c1) p ?bid l)) c1))"
      by (rule query_insert_refused)
    then obtain e2 c2 where "query ev (Insert_Log (log_row ev (tick c1) p ?bid l)) c1 = (Inl e2, c2)"
      by (cases "query ev (Insert_Log (log_row ev (tick c1) p ?bid l)) c1") (auto simp: isl_def)
    then have "insert_logs ev p ?bid (p_logs p) c1 = (Inl e2, c2)"
      using ls by simp
    then show ?thesis using b Inr rollback_and_throw_isl by (simp add: storeBatchLogs_def Let_def)
  qed
qed

lemma rollback_and_throw_result:
  assumes "rollback_and_throw ev e c = (res, c')"
  shows "isl res \<and> committed c' = committed c
         \<and> journal c' = journal c @ [Query (Sql ''ROLLBACK'' [])]
         \<and> (\<not> fault ev (tick c) \<longrightarrow> txn c' = Idle)"
  using assms
  by (auto simp: rollback_and_throw_def query_def Let_def exec_def exec_sql_def
           split: if_splits)

lemma storeBatchLogs_error_rollback:
  assumes "storeBatchLogs ev c p = (Inl e, c')"
  shows "\<exists>e0 ck. rollback_and_throw ev e0 ck = (Inl e, c')"
proof -
  let ?bid = "new_batch_id ev (tick c)"
  obtain r1 c1 where b: "query ev (Sql ''BEGIN'' []) c = (r1, c1)"
    by (cases "query ev (Sql ''BEGIN'' []) c")
  obtain r2 c2 where i: "insert_logs ev p ?bid (p_logs p) c1 = (r2, c2)"
    by (cases "insert_logs ev p ?bid (p_logs p) c1")
  obtain r3 c3 where m: "query ev (Sql ''COMMIT'' []) c2 = (r3, c3)"
    by (cases "query ev (Sql ''COMMIT'' []) c2")
  show ?thesis
  proof (cases r1)
    case (Inl e1)
    then have "rollback_and_throw ev e1 c1 = (Inl e, c')"
      using assms b by (simp add: storeBatchLogs_def Let_def)
    then show ?thesis by blast
  next
    case r1: (Inr x1)
    show ?thesis
    proof (cases r2)
      case (Inl e2)
      then have "rollback_and_throw ev e2 c2 = (Inl e, c')"
        using assms b r1 i by (simp add: storeBatchLogs_def Let_def)
      then show ?thesis by blast
    next
      case r2: (Inr x2)
      show ?thesis
      proof (cases r3)
        case (Inl e3)
        then have "rollback_and_throw ev e3 c3 = (Inl e, c')"
          using assms b r1 i r2 m by (simp add: storeBatchLogs_def Let_def)
        then show ?thesis by blast
      next
        case (Inr x3)
        then show ?thesis using assms b r1 i r2 m by (simp add: storeBatchLogs_def Let_def)
      qed
    qed
  qed
qed

lemma storeBatchLogs_error_session:
  assumes "storeBatchLogs ev c p = (Inl e, c')"
  shows "last (journal c') = Query (Sql ''ROLLBACK'' [])
         \<and> (\<not> fault ev (tick c' - 1) \<longrightarrow> txn c' = Idle)"
proof -
  obtain e0 ck where r: "rollback_and_throw ev e0 ck = (Inl e, c')"
    using storeBatchLogs_error_rollback[OF assms] by blast
  note f = rollback_and_throw_result[OF r]
  have "tick c' - 1 = tick ck" using f by (simp add: tick_def)
  then show ?thesis using f by simp
qed

text \<open>
  C4. When \<open>storeBatchLogs\<close> ends with an error, the last statement it has sent is a
  ROLLBACK, the committed table is the one it started from, and the session is left
  outside any transaction unless the store fails that ROLLBACK itself (the ROLLBACK is
  statement \<open>tick c' - 1\<close> of the client \<open>c'\<close> it leaves): nothing of the batch is kept.
  And an entry that fails makes the whole call end with an error, whether the store
  fails its INSERT (entry \<open>i\<close> is statement \<open>tick c + Suc i\<close> of the client, after the
  BEGIN) or the row security policy refuses the row.
\<close>

theorem failed_batch_is_rolled_back:
  "(isl (fst (storeBatchLogs ev c p)) \<longrightarrow>
      committed (snd (storeBatchLogs ev c p)) = committed c
      \<and> last (journal (snd (storeBatchLogs ev c p))) = Query (Sql ''ROLLBACK'' [])
      \<and> (\<not> fault ev (tick (snd (storeBatchLogs ev c p)) - 1)
           \<longrightarrow> txn (snd (storeBatchLogs ev c p)) = Idle))
   \<and> ((\<exists>i < length (p_logs p). fault ev (tick c + Suc i)) \<longrightarrow> isl (fst (storeBatchLogs ev c p)))
   \<and> (p_logs p \<noteq> [] \<and> current_tenant c \<noteq> Some (p_comp_code p)
        \<longrightarrow> isl (fst (storeBatchLogs ev c p)))"
proof (intro conjI impI)
  assume a: "isl (fst (storeBatchLogs ev c p))"
  then obtain e c' where s: "storeBatchLogs ev c p = (Inl e, c')"
    by (cases "storeBatchLogs ev c p") (auto simp: isl_def)
  show "committed (snd (storeBatchLogs ev c p)) = committed c"
    using storeBatchLogs_error_committed[OF s] s by simp
  show "last (journal (snd (storeBatchLogs ev c p))) = Query (Sql ''ROLLBACK'' [])"
    using storeBatchLogs_error_session[OF s] s by simp
  show "txn (snd (storeBatchLogs ev c p)) = Idle"
    if "\<not> fault ev (tick (snd (storeBatchLogs ev c p)) - 1)"
    using storeBatchLogs_error_session[OF s] s that by simp
next
  assume "\<exists>i < length (p_logs p). fault ev (tick c + Suc i)"
  then show "isl (fst (storeBatchLogs ev c p))"
    using storeBatchLogs_failing_entry by blast
next
  assume "p_logs p \<noteq> [] \<and> current_tenant c \<noteq> Some (p_comp_code p)"
  then show "isl (fst (storeBatchLogs ev c p))"
    using storeBatchLogs_policy_violation by blast
qed

theorem failed_batch_is_rolled_back_witness:
  "(\<exists>i < length (p_logs example_batch). fault second_insert_fails (tick bound_client + Suc i))
   \<and> \<not> fault second_insert_fails (tick (snd (storeBatchLogs second_insert_fails bound_client example_batch)) - 1)
   \<and> isl (fst (storeBatchLogs second_insert_fails bound_client example_batch))
   \<and> committed (snd (storeBatchLogs second_insert_fails bound_client example_batch)) = committed bound_client
   \<and> last (journal (snd (storeBatchLogs second_insert_fails bound_client example_batch)))
        = Query (Sql ''ROLLBACK'' [])
   \<and> txn (snd (storeBatchLogs second_insert_fails bound_client example_batch)) = Idle
   \<and> p_logs example_batch \<noteq> []
   \<and> current_tenant pooled_client \<noteq> Some (p_comp_code example_batch)
   \<and> \<not> fault example_env (tick (snd (storeBatchLogs example_env pooled_client example_batch)) - 1)
   \<and> isl (fst (storeBatchLogs example_env pooled_client example_batch))
   \<and> committed (snd (storeBatchLogs example_env pooled_client example_batch)) = committed pooled_client
   \<and> last (journal (snd (storeBatchLogs example_env pooled_client example_batch)))
        = Query (Sql ''ROLLBACK'' [])
   \<and> txn (snd (storeBatchLogs example_env pooled_client example_batch)) = Idle"
proof -
  have "(1::nat) < length (p_logs example_batch) \<and> fault second_insert_fails (tick bound_client + Suc 1)"
    by (simp add: example_batch_def second_insert_fails_def tick_def bound_client_def)
  then have h: "\<exists>i < length (p_logs example_batch). fault second_insert_fails (tick bound_client + Suc i)"
    by blast
  have t: "tick (snd (storeBatchLogs second_insert_fails bound_client example_batch)) = 4"
    by code_simp
  have n: "\<not> fault second_insert_fails (tick (snd (storeBatchLogs second_insert_fails bound_client example_batch)) - 1)"
    unfolding t by (simp add: second_insert_fails_def)
  have k: "p_logs example_batch \<noteq> []"
          "current_tenant pooled_client \<noteq> Some (p_comp_code example_batch)"
          "\<not> fault example_env (tick (snd (storeBatchLogs example_env pooled_client example_batch)) - 1)"
    by (simp_all add: example_batch_def pooled_client_def example_env_def)
  show ?thesis
    using h n k failed_batch_is_rolled_back[of second_insert_fails bound_client example_batch]
      failed_batch_is_rolled_back[of example_env pooled_client example_batch]
    by blast
qed

text \<open>
  C2, as the code has it. On a store that does not fail, with a client bound to the
  batch's tenant, a batch whose entries all carry a non-empty \<open>process_id\<close> can be
  submitted twice: both calls succeed and the second leaves the committed table as the
  first left it.
\<close>

theorem resubmitted_batch_adds_no_row:
  assumes "\<forall>n. \<not> fault ev n"
    and "txn c \<noteq> Failed"
    and "current_tenant c = Some (p_comp_code p)"
    and "\<forall>l\<in>set (p_logs p). truthy (log_process_id l) \<noteq> None"
  shows "\<exists>r1 c1 r2 c2.
           storeBatchLogs ev c p = (Inr r1, c1) \<and> storeBatchLogs ev c1 p = (Inr r2, c2)
           \<and> committed c2 = committed c1 \<and> length (committed c2) = length (committed c1)"
proof -
  have nf: "\<And>n. \<not> fault ev n" using assms(1) by simp
  text \<open>first submission\<close>
  obtain x1 b1 where b1: "query ev (Sql ''BEGIN'' []) c = (Inr x1, b1)"
    using query_begin_ok[OF nf assms(2)] by blast
  note qb1 = query_begin[OF b1]
  obtain w0 where w0: "txn b1 = Active w0"
    using qb1 assms(2) by (auto split: txn_state.splits)
  have t1: "current_tenant b1 = Some (p_comp_code p)" using qb1 assms(3) by simp
  obtain i1 w1 where i1: "insert_logs ev p (new_batch_id ev (tick c)) (p_logs p) b1 = (Inr (), i1)"
      "txn i1 = Active w1" "current_tenant i1 = current_tenant b1"
      "\<forall>l\<in>set (p_logs p). \<forall>s. truthy (log_process_id l) = Some s \<longrightarrow> s \<in> set (map process_id w1)"
    using insert_logs_ok[OF assms(1) t1 w0, of "new_batch_id ev (tick c)" "p_logs p"] by blast
  obtain y1 c1 where m1: "query ev (Sql ''COMMIT'' []) i1 = (Inr y1, c1)"
    using query_commit_ok[OF nf] by blast
  note qc1 = query_commit[OF m1]
  have first: "storeBatchLogs ev c p =
      (Inr \<lparr> res_batch_id = new_batch_id ev (tick c), total_received = length (p_logs p) \<rparr>, c1)"
    using b1 i1(1) m1 by (simp add: storeBatchLogs_def Let_def)
  have c1: "txn c1 = Idle" "committed c1 = w1" "current_tenant c1 = Some (p_comp_code p)"
    using qc1 i1(2,3) t1 by (simp_all add: table_def)
  text \<open>second submission\<close>
  obtain x2 b2 where b2: "query ev (Sql ''BEGIN'' []) c1 = (Inr x2, b2)"
    using query_begin_ok[OF nf, of c1] c1(1) by auto
  note qb2 = query_begin[OF b2]
  have w2: "txn b2 = Active w1" using qb2 c1 by simp
  have t2: "current_tenant b2 = Some (p_comp_code p)" using qb2 c1 by simp
  have known: "\<forall>l\<in>set (p_logs p). \<exists>s. truthy (log_process_id l) = Some s \<and> s \<in> set (map process_id w1)"
    using assms(4) i1(4) by fastforce
  obtain i2 where i2: "insert_logs ev p (new_batch_id ev (tick c1)) (p_logs p) b2 = (Inr (), i2)"
      "txn i2 = Active w1"
    using insert_logs_known[OF assms(1) t2 w2 known, of "new_batch_id ev (tick c1)"] by blast
  obtain y2 c2 where m2: "query ev (Sql ''COMMIT'' []) i2 = (Inr y2, c2)"
    using query_commit_ok[OF nf] by blast
  note qc2 = query_commit[OF m2]
  have second: "storeBatchLogs ev c1 p =
      (Inr \<lparr> res_batch_id = new_batch_id ev (tick c1), total_received = length (p_logs p) \<rparr>, c2)"
    using b2 i2(1) m2 by (simp add: storeBatchLogs_def Let_def)
  have "committed c2 = committed c1" using qc2 i2(2) c1(2) by (simp add: table_def)
  then show ?thesis using first second by auto
qed

theorem resubmitted_batch_adds_no_row_witness:
  "(\<forall>n. \<not> fault example_env n) \<and> txn bound_client \<noteq> Failed
   \<and> current_tenant bound_client = Some (p_comp_code example_batch)
   \<and> list_all (\<lambda>l. truthy (log_process_id l) \<noteq> None) (p_logs example_batch)
   \<and> (\<exists>r1 c1 r2 c2.
         storeBatchLogs example_env bound_client example_batch = (Inr r1, c1)
         \<and> storeBatchLogs example_env c1 example_batch = (Inr r2, c2)
         \<and> committed c2 = committed c1 \<and> length (committed c2) = length (committed c1))"
proof -
  have a: "\<forall>n. \<not> fault example_env n" by (simp add: example_env_def)
  have b: "txn bound_client \<noteq> Failed" by (simp add: bound_client_def)
  have c: "current_tenant bound_client = Some (p_comp_code example_batch)"
    by (simp add: bound_client_def example_batch_def)
  have d: "\<forall>l\<in>set (p_logs example_batch). truthy (log_process_id l) \<noteq> None"
    by (simp add: example_batch_def check_in_def submit_leave_def truthy_def)
  have d': "list_all (\<lambda>l. truthy (log_process_id l) \<noteq> None) (p_logs example_batch)"
    using d by (simp add: list_all_iff)
  show ?thesis using a b c d' resubmitted_batch_adds_no_row[OF a b c d] by blast
qed

text \<open>
  C2 as stated fails for an empty \<open>process_id\<close>: \<open>log.process_id || uuidv4()\<close> takes the
  empty string for a missing one and draws a fresh identifier at every submission.
  The same one-entry batch, submitted twice, leaves one row and then two.
\<close>

theorem resubmitted_blank_id_counterexample:
  "\<not> isl (fst first_submission) \<and> \<not> isl (fst second_submission)
   \<and> length (committed (snd first_submission)) = 1
   \<and> length (committed (snd second_submission)) = 2"
  by code_simp

section \<open>The tenant marker in the SET statement\<close>

lemma quoted_literal_escape: "quoted_literal (escape_quotes t @ [quote]) = Some (t, [])"
proof (induction t)
  case Nil
  then show ?case by (simp add: escape_quotes_def)
next
  case (Cons c cs)
  show ?case
  proof (cases "c = quote")
    case True
    have "escape_quotes (c # cs) @ [quote] = quote # quote # (escape_quotes cs @ [quote])"
      using True by (simp add: escape_quotes_def)
    then show ?thesis using Cons True by simp
  next
    case False
    obtain d ds where d: "escape_quotes cs @ [quote] = d # ds"
      by (cases "escape_quotes cs @ [quote]") auto
    have "escape_quotes (c # cs) @ [quote] = c # d # ds"
      using False d by (simp add: escape_quotes_def)
    then show ?thesis using Cons False d by simp
  qed
qed

lemma parse_set_tenant_roundtrip: "parse_set_tenant (set_tenant_sql t) = Some t"
  by (simp add: parse_set_tenant_def set_tenant_sql_def quoted_literal_escape)

lemma set_tenant_sql_not_fixed:
  "set_tenant_sql t \<noteq> ''ROLLBACK''" "set_tenant_sql t \<noteq> ''COMMIT''"
  "set_tenant_sql t \<noteq> ''BEGIN''" "set_tenant_sql t \<noteq> current_setting_sql"
  by (simp_all add: set_tenant_sql_def set_tenant_prefix_def current_setting_sql_def)

lemma nul_free_set_tenant_sql:
  "CHR 0x00 \<notin> set t \<Longrightarrow> CHR 0x00 \<notin> set (set_tenant_sql t)"
  by (auto simp: set_tenant_sql_def set_tenant_prefix_def escape_quotes_def quote_def split: if_splits)

lemma exec_set_tenant:
  "CHR 0x00 \<notin> set t \<Longrightarrow> txn c \<noteq> Failed \<Longrightarrow>
     exec_sql (set_tenant_sql t) c = Inr (Command_Ok 0, c\<lparr>current_tenant := Some t\<rparr>)"
  using nul_free_set_tenant_sql[of t]
  by (simp add: exec_sql_def set_tenant_sql_not_fixed parse_set_tenant_roundtrip)

lemma set_escape_quotes: "set (escape_quotes t) = set t"
  by (induction t) (auto simp: escape_quotes_def)

lemma nul_in_set_tenant_sql:
  "CHR 0x00 \<in> set (set_tenant_sql t) \<longleftrightarrow> CHR 0x00 \<in> set t"
  by (auto simp: set_tenant_sql_def set_tenant_prefix_def set_escape_quotes quote_def)

text \<open>
  C5, as the code has it. The tenant identifier is put into the text of the SET
  statement, between two quotes and with every quote of its own doubled, and no
  parameter is bound. The store, given that statement: refuses it when the identifier
  holds a NUL character; refuses it inside a failed transaction; and otherwise sets the
  session's tenant marker to exactly the identifier and changes nothing else. So no part
  of an identifier is ever executed as statement syntax.
\<close>

theorem tenant_statement_sets_the_tenant:
  "set_tenant_statement t = Sql (set_tenant_prefix @ [quote] @ escape_quotes t @ [quote]) []
   \<and> exec (set_tenant_statement t) c =
       (if CHR 0x00 \<in> set t then Inl Syntax_Error
        else if txn c = Failed then Inl In_Failed_Transaction
        else Inr (Command_Ok 0, c\<lparr>current_tenant := Some t\<rparr>))"
proof
  show "set_tenant_statement t = Sql (set_tenant_prefix @ [quote] @ escape_quotes t @ [quote]) []"
    by (simp add: set_tenant_statement_def set_tenant_sql_def)
  show "exec (set_tenant_statement t) c =
       (if CHR 0x00 \<in> set t then Inl Syntax_Error
        else if txn c = Failed then Inl In_Failed_Transaction
        else Inr (Command_Ok 0, c\<lparr>current_tenant := Some t\<rparr>))"
    by (simp add: exec_def set_tenant_statement_def exec_sql_def nul_in_set_tenant_sql
          set_tenant_sql_not_fixed parse_set_tenant_roundtrip)
qed


text \<open>
  C5 as stated fails: the statement carries the identifier in its text and binds no
  parameter, so two tenants give two statement texts.
\<close>

theorem tenant_text_in_statement_counterexample:
  "set_tenant_statement ''COMP001'' = Sql (''SET app.current_tenant = 'COMP001'' @ [CHR 0x27]) []
   \<and> set_tenant_statement ''COMP002'' = Sql (''SET app.current_tenant = 'COMP002'' @ [CHR 0x27]) []"
  by code_simp

section \<open>What the retrievals compute\<close>

lemma table_journal [simp]: "table (c\<lparr>journal := j\<rparr>) = table c"
  by (simp add: table_def split: txn_state.splits)

lemma query_count:
  assumes "query ev (Select_Count conds ps) c = (Inr x, c')"
  shows "\<exists>t bs. current_tenant c = Some t \<and> those (map (bind_cond ps) conds) = Some bs
           \<and> x = Count (length (matching t bs (table c)))
           \<and> c' = c\<lparr>journal := journal c @ [Query (Select_Count conds ps)]\<rparr>"
  using assms
  by (auto simp: query_def Let_def exec_def exec_count_def split: if_splits option.splits)

lemma query_page:
  assumes "query ev (Select_Page conds l o' ps) c = (Inr x, c')"
  shows "\<exists>t bs lim off. current_tenant c = Some t \<and> those (map (bind_cond ps) conds) = Some bs
           \<and> placeholder ps l = Some (P_Num lim) \<and> placeholder ps o' = Some (P_Num off)
           \<and> 0 \<le> lim \<and> 0 \<le> off
           \<and> x = Rows (take (nat lim) (drop (nat off)
                    (sort_key (\<lambda>r. - created_at r) (matching t bs (table c)))))
           \<and> c' = c\<lparr>journal := journal c @ [Query (Select_Page conds l o' ps)]\<rparr>"
  using assms
  by (auto simp: query_def Let_def exec_def exec_page_def
           split: if_splits option.splits param.splits)

lemma placeholder_append:
  "placeholder ps n = Some x \<Longrightarrow> placeholder (ps @ extra) n = Some x"
  by (auto simp: placeholder_def nth_append split: if_splits)

lemma bind_cond_append:
  "bind_cond ps cnd = Some b \<Longrightarrow> bind_cond (ps @ extra) cnd = Some b"
  by (cases cnd) (auto split: option.splits param.splits dest: placeholder_append[where extra = extra])

lemma those_bind_append:
  "those (map (bind_cond ps) conds) = Some bs \<Longrightarrow>
     those (map (bind_cond (ps @ extra)) conds) = Some bs"
proof (induction conds arbitrary: bs)
  case Nil
  then show ?case by simp
next
  case (Cons cnd conds)
  then show ?case
    by (auto split: option.splits dest: bind_cond_append[where extra = extra])
qed

lemma placeholder_limit_offset:
  "placeholder (ps @ [P_Num lim, P_Num off]) (Suc (length ps)) = Some (P_Num lim)"
  "placeholder (ps @ [P_Num lim, P_Num off]) (Suc (Suc (length ps))) = Some (P_Num off)"
  by (simp_all add: placeholder_def nth_append)

lemma count_list_insort_key: "count_list (insort_key f x xs) y = count_list (x # xs) y"
  by (induction xs) auto

lemma count_list_sort_key: "count_list (sort_key f xs) y = count_list xs y"
  by (induction xs) (auto simp: count_list_insort_key)

lemma latest_first_sort_key: "latest_first m (sort_key (\<lambda>r. - created_at r) m)"
proof -
  have "sorted (map (\<lambda>r. - created_at r) (sort_key (\<lambda>r. - created_at r) m))"
    by (rule sorted_sort_key)
  then have "sorted_wrt (\<lambda>a b. created_at b \<le> created_at a) (sort_key (\<lambda>r. - created_at r) m)"
    by (simp add: sorted_wrt_map)
  then show ?thesis by (simp add: latest_first_def count_list_sort_key)
qed

lemma latest_first_page:
  "latest_first m srt \<Longrightarrow>
     length (take l (drop k srt)) \<le> l
     \<and> sorted_wrt (\<lambda>a b. created_at b \<le> created_at a) (take l (drop k srt))"
  by (simp add: latest_first_def sorted_wrt_take sorted_wrt_drop)

lemma matching_tenant: "r \<in> set (matching t bs rs) \<Longrightarrow> comp_code r = t"
  by (simp add: matching_def)

text \<open>What a builder's two statements compute, once both have succeeded.\<close>

lemma count_then_page_result:
  assumes "idx b = Suc (length (params b))"
    and "count_then_page ev (count_statement b) (page_statement lim off b) c = (Inr r, c')"
  shows "\<exists>t bs. current_tenant c = Some t
           \<and> those (map (bind_cond (params b)) (sql b)) = Some bs
           \<and> 0 \<le> lim \<and> 0 \<le> off
           \<and> total_count r = length (matching t bs (table c))
           \<and> rows r = take (nat lim) (drop (nat off)
                 (sort_key (\<lambda>r. - created_at r) (matching t bs (table c))))
           \<and> journal c' = journal c @ [Query (count_statement b), Query (page_statement lim off b)]
           \<and> committed c' = committed c \<and> txn c' = txn c \<and> current_tenant c' = current_tenant c"
proof -
  obtain x1 c1 where q1: "query ev (Select_Count (sql b) (params b)) c = (Inr x1, c1)"
    using assms(2)
    by (cases "query ev (Select_Count (sql b) (params b)) c")
       (auto simp: count_then_page_def count_statement_def split: sum.splits)
  from query_count[OF q1] obtain t bs where
    c: "current_tenant c = Some t" "those (map (bind_cond (params b)) (sql b)) = Some bs"
       "x1 = Count (length (matching t bs (table c)))"
       "c1 = c\<lparr>journal := journal c @ [Query (Select_Count (sql b) (params b))]\<rparr>"
    by blast
  let ?ps = "params b @ [P_Num lim, P_Num off]"
  let ?pg = "Select_Page (sql b) (idx b) (idx b + 1) ?ps"
  obtain x2 where q2: "query ev ?pg c1 = (Inr x2, c')"
    using assms(2) q1 c(3)
    by (cases "query ev ?pg c1")
       (auto simp: count_then_page_def count_statement_def page_statement_def
             split: sum.splits reply.splits)
  from query_page[OF q2] obtain t' bs' lim' off' where
    p: "current_tenant c1 = Some t'" "those (map (bind_cond ?ps) (sql b)) = Some bs'"
       "placeholder ?ps (idx b) = Some (P_Num lim')" "placeholder ?ps (idx b + 1) = Some (P_Num off')"
       "0 \<le> lim'" "0 \<le> off'"
       "x2 = Rows (take (nat lim') (drop (nat off')
                (sort_key (\<lambda>r. - created_at r) (matching t' bs' (table c1)))))"
       "c' = c1\<lparr>journal := journal c1 @ [Query ?pg]\<rparr>"
    by blast
  have t': "t' = t" using p(1) c(1,4) by simp
  have bs': "bs' = bs" using those_bind_append[OF c(2), of "[P_Num lim, P_Num off]"] p(2) by simp
  have lim': "lim' = lim" using p(3) placeholder_limit_offset(1)[of "params b" lim off] assms(1) by simp
  have off': "off' = off" using p(4) placeholder_limit_offset(2)[of "params b" lim off] assms(1) by simp
  have r: "r = \<lparr> rows = take (nat lim) (drop (nat off)
                (sort_key (\<lambda>r. - created_at r) (matching t bs (table c)))),
              total_count = length (matching t bs (table c)) \<rparr>"
    using assms(2) q1 q2 c(3,4) p(7) t' bs' lim' off'
    by (simp add: count_then_page_def count_statement_def page_statement_def)
  show ?thesis
    using c(1,2) p(5,6) lim' off' r c(4) p(8)
    by (auto simp: count_statement_def page_statement_def)
qed

lemma and_eq_idx: "idx b = Suc (length (params b)) \<Longrightarrow> idx (and_eq col v b) = Suc (length (params (and_eq col v b)))"
  by (simp add: and_eq_def split: option.splits)

lemma and_from_idx: "idx b = Suc (length (params b)) \<Longrightarrow> idx (and_from ev v b) = Suc (length (params (and_from ev v b)))"
  by (simp add: and_from_def split: option.splits)

lemma and_to_idx: "idx b = Suc (length (params b)) \<Longrightarrow> idx (and_to ev v b) = Suc (length (params (and_to ev v b)))"
  by (simp add: and_to_def split: option.splits)

lemma and_metadata_idx: "idx b = Suc (length (params b)) \<Longrightarrow> idx (and_metadata v b) = Suc (length (params (and_metadata v b)))"
  by (simp add: and_metadata_def split: option.splits)

lemmas builder_idx = and_eq_idx and_from_idx and_to_idx and_metadata_idx

lemma getUserLogs_page_idx: "idx (getUserLogs_page ev f) = Suc (length (params (getUserLogs_page ev f)))"
  unfolding getUserLogs_page_def by (intro builder_idx) simp

lemma getAppLogs_page_idx: "idx (getAppLogs_page ev f) = Suc (length (params (getAppLogs_page ev f)))"
  unfolding getAppLogs_page_def by (intro builder_idx) simp

lemma searchLogs_page_idx: "idx (searchLogs_page ev f) = Suc (length (params (searchLogs_page ev f)))"
  unfolding searchLogs_page_def by (intro builder_idx) simp

lemma same_predicates:
  "getUserLogs_count ev uf = getUserLogs_page ev uf"
  "getAppLogs_count ev af = getAppLogs_page ev af"
  "searchLogs_count ev sf = searchLogs_page ev sf"
  by (simp_all add: getUserLogs_count_def getUserLogs_page_def getAppLogs_count_def
        getAppLogs_page_def searchLogs_count_def searchLogs_page_def)

lemma getUserLogs_result:
  assumes "getUserLogs ev c f = (Inr r, c')"
  shows "\<exists>t bs. current_tenant c = Some t
           \<and> those (map (bind_cond (params (getUserLogs_page ev f))) (sql (getUserLogs_page ev f))) = Some bs
           \<and> 0 \<le> q_limit f \<and> 0 \<le> q_offset f
           \<and> total_count r = length (matching t bs (table c))
           \<and> rows r = take (nat (q_limit f)) (drop (nat (q_offset f))
                 (sort_key (\<lambda>r. - created_at r) (matching t bs (table c))))
           \<and> journal c' = journal c @ [Query (count_statement (getUserLogs_page ev f)),
                                       Query (page_statement (q_limit f) (q_offset f) (getUserLogs_page ev f))]
           \<and> committed c' = committed c \<and> txn c' = txn c \<and> current_tenant c' = current_tenant c"
  using assms count_then_page_result[OF getUserLogs_page_idx[of ev f], of ev "q_limit f" "q_offset f" c r c']
  by (simp add: getUserLogs_def same_predicates)

lemma getAppLogs_result:
  assumes "getAppLogs ev c f = (Inr r, c')"
  shows "\<exists>t bs. current_tenant c = Some t
           \<and> those (map (bind_cond (params (getAppLogs_page ev f))) (sql (getAppLogs_page ev f))) = Some bs
           \<and> 0 \<le> q_limit f \<and> 0 \<le> q_offset f
           \<and> total_count r = length (matching t bs (table c))
           \<and> rows r = take (nat (q_limit f)) (drop (nat (q_offset f))
                 (sort_key (\<lambda>r. - created_at r) (matching t bs (table c))))
           \<and> journal c' = journal c @ [Query (count_statement (getAppLogs_page ev f)),
                                       Query (page_statement (q_limit f) (q_offset f) (getAppLogs_page ev f))]
           \<and> committed c' = committed c \<and> txn c' = txn c \<and> current_tenant c' = current_tenant c"
  using assms count_then_page_result[OF getAppLogs_page_idx[of ev f], of ev "q_limit f" "q_offset f" c r c']
  by (simp add: getAppLogs_def same_predicates)

lemma searchLogs_result:
  assumes "searchLogs ev c f = (Inr r, c')"
  shows "\<exists>t bs. current_tenant c = Some t
           \<and> those (map (bind_cond (params (searchLogs_page ev f))) (sql (searchLogs_page ev f))) = Some bs
           \<and> 0 \<le> q_limit f \<and> 0 \<le> q_offset f
           \<and> total_count r = length (matching t bs (table c))
           \<and> rows r = take (nat (q_limit f)) (drop (nat (q_offset f))
                 (sort_key (\<lambda>r. - created_at r) (matching t bs (table c))))
           \<and> journal c' = journal c @ [Query (count_statement (searchLogs_page ev f)),
                                       Query (page_statement (q_limit f) (q_offset f) (searchLogs_page ev f))]
           \<and> committed c' = committed c \<and> txn c' = txn c \<and> current_tenant c' = current_tenant c"
  using assms count_then_page_result[OF searchLogs_page_idx[of ev f], of ev "q_limit f" "q_offset f" c r c']
  by (simp add: searchLogs_def same_predicates)

section \<open>One client per request, released once\<close>

lemma pool_events_append [simp]: "pool_events (xs @ ys) = pool_events xs @ pool_events ys"
  by (simp add: pool_events_def)

lemma pool_events_simps [simp]:
  "pool_events [] = []"
  "pool_events (Query st # es) = pool_events es"
  "pool_events (Respond n # es) = pool_events es"
  "pool_events (Connect # es) = Connect # pool_events es"
  "pool_events (Release # es) = Release # pool_events es"
  by (simp_all add: pool_events_def)







lemma respond_pool [simp]: "pool_events (journal (respond r c)) = pool_events (journal c)"
  by (simp add: respond_def)

lemma release_pool [simp]: "pool_events (journal (release c)) = pool_events (journal c) @ [Release]"
  by (simp add: release_def)



lemma auth_truthy: "auth ev req = Inr v \<Longrightarrow> json_truthy v \<and> request_comp_code req = Some v"
  by (auto simp: auth_def split: option.splits if_splits)


section \<open>Tenant isolation\<close>

lemma current_setting_sql_not_fixed:
  "current_setting_sql \<noteq> ''ROLLBACK''" "current_setting_sql \<noteq> ''COMMIT''"
  "current_setting_sql \<noteq> ''BEGIN''" "CHR 0x00 \<notin> set current_setting_sql"
  by (simp_all add: current_setting_sql_def)

lemma query_set_tenant:
  assumes "query ev (set_tenant_statement t) c = (Inr x, c')"
  shows "c' = c\<lparr>journal := journal c @ [Query (set_tenant_statement t)], current_tenant := Some t\<rparr>"
  using assms
  by (auto simp: query_def Let_def exec_def exec_sql_def set_tenant_statement_def
        set_tenant_sql_not_fixed parse_set_tenant_roundtrip split: if_splits)

lemma query_set_tenant_ok:
  assumes "\<not> fault ev (tick c)" and "txn c \<noteq> Failed" and "CHR 0x00 \<notin> set t"
  shows "query ev (set_tenant_statement t) c =
           (Inr (Command_Ok 0),
            c\<lparr>journal := journal c @ [Query (set_tenant_statement t)], current_tenant := Some t\<rparr>)"
  using assms nul_free_set_tenant_sql[of t]
  by (simp add: query_def Let_def exec_def exec_sql_def set_tenant_statement_def
        set_tenant_sql_not_fixed parse_set_tenant_roundtrip)

lemma query_current_setting:
  assumes "query ev (Sql current_setting_sql []) c = (Inr x, c')"
  shows "c' = c\<lparr>journal := journal c @ [Query (Sql current_setting_sql [])]\<rparr>"
  using assms
  by (auto simp: query_def Let_def exec_def exec_sql_def current_setting_sql_not_fixed
           split: if_splits option.splits)

lemma query_current_setting_ok:
  assumes "\<not> fault ev (tick c)" and "txn c \<noteq> Failed" and "current_tenant c = Some t"
  shows "query ev (Sql current_setting_sql []) c =
           (Inr (Setting t), c\<lparr>journal := journal c @ [Query (Sql current_setting_sql [])]\<rparr>)"
  using assms
  by (simp add: query_def Let_def exec_def exec_sql_def current_setting_sql_not_fixed)

text \<open>The middleware on a store that answers: the chain runs on the bound client.\<close>

lemma tenantContext_bound:
  assumes "t \<noteq> []" and "CHR 0x00 \<notin> set t" and "txn c \<noteq> Failed"
    and "\<not> fault ev (tick c)" and "\<not> fault ev (Suc (tick c))" and "\<not> fault ev (Suc (Suc (tick c)))"
  shows "tenantContext ev (Some (JStr t)) next c =
           \<lparr> answered = Some (fst (next True (bound_to t c))), on_finish = True,
             pg = respond (fst (next True (bound_to t c))) (snd (next True (bound_to t c))) \<rparr>"
proof -
  let ?c1 = "c\<lparr>journal := journal c @ [Connect]\<rparr>"
  let ?c2 = "?c1\<lparr>journal := journal ?c1 @ [Query (set_tenant_statement t)], current_tenant := Some t\<rparr>"
  let ?c3 = "?c2\<lparr>journal := journal ?c2 @ [Query (Sql current_setting_sql [])]\<rparr>"
  have s: "query ev (set_tenant_statement t) ?c1 = (Inr (Command_Ok 0), ?c2)"
    using assms by (intro query_set_tenant_ok) (simp_all add: tick_def)
  have k: "query ev (Sql current_setting_sql []) ?c2 = (Inr (Setting t), ?c3)"
    using assms by (intro query_current_setting_ok) (simp_all add: tick_def)
  have b: "?c3 = bound_to t c" by (simp add: bound_to_def)
  show ?thesis
    using assms(1,4) s k b
    by (simp add: tenantContext_def Let_def json_truthy_def split: prod.splits)
qed

text \<open>The middleware whenever the chain is reached at all.\<close>

lemma tenantContext_reaches_routes:
  assumes "answered (tenantContext ev (Some v) next c) = Some r"
    and "r \<noteq> Failure 500 ''Tenant setup failed''" and "r \<noteq> Failure 500 ''Tenant context not set''"
  shows "\<exists>t c3. v = JStr t \<and> current_tenant c3 = Some t \<and> committed c3 = committed c
           \<and> txn c3 = txn c \<and> fst (next True c3) = r"
proof -
  let ?c1 = "c\<lparr>journal := journal c @ [Connect]\<rparr>"
  have tr: "json_truthy v" and nf: "\<not> fault ev (tick c)"
    using assms by (auto simp: tenantContext_def split: if_splits)
  obtain t where v: "v = JStr t"
    using assms tr nf by (cases v) (auto simp: tenantContext_def Let_def setup_failed_def)
  obtain r2 c2 where s: "query ev (set_tenant_statement t) ?c1 = (r2, c2)"
    by (cases "query ev (set_tenant_statement t) ?c1")
  obtain x2 where r2: "r2 = Inr x2"
    using assms tr nf v s by (cases r2) (auto simp: tenantContext_def Let_def setup_failed_def)
  obtain r3 c3 where k: "query ev (Sql current_setting_sql []) c2 = (r3, c3)"
    by (cases "query ev (Sql current_setting_sql []) c2")
  obtain x3 where r3: "r3 = Inr x3"
    using assms tr nf v s r2 k by (cases r3) (auto simp: tenantContext_def Let_def setup_failed_def)
  have "fst (next True c3) = r"
    using assms(1) tr nf v s r2 k r3 by (simp add: tenantContext_def Let_def split: prod.splits)
  moreover have "current_tenant c3 = Some t" "committed c3 = committed c" "txn c3 = txn c"
    using query_set_tenant[OF s[unfolded r2]] query_current_setting[OF k[unfolded r3]] by simp_all
  ultimately show ?thesis using v by blast
qed

lemma page_rows_tenant:
  assumes "current_tenant c = Some t"
    and "rows r = take n (drop k (sort_key (\<lambda>r. - created_at r) (matching t' bs (table c))))"
    and "current_tenant c = Some t'"
  shows "\<forall>x\<in>set (rows r). comp_code x = t"
proof
  fix x assume "x \<in> set (rows r)"
  then have "x \<in> set (matching t' bs (table c))"
    using assms(2) by (auto dest!: in_set_takeD in_set_dropD)
  then show "comp_code x = t" using matching_tenant assms(1,3) by fastforce
qed

lemma getUserLogs_tenant:
  "current_tenant c = Some t \<Longrightarrow> getUserLogs ev c f = (Inr r, c') \<Longrightarrow> \<forall>x\<in>set (rows r). comp_code x = t"
  using getUserLogs_result[of ev c f r c'] page_rows_tenant by blast

lemma getAppLogs_tenant:
  "current_tenant c = Some t \<Longrightarrow> getAppLogs ev c f = (Inr r, c') \<Longrightarrow> \<forall>x\<in>set (rows r). comp_code x = t"
  using getAppLogs_result[of ev c f r c'] page_rows_tenant by blast

lemma searchLogs_tenant:
  "current_tenant c = Some t \<Longrightarrow> searchLogs ev c f = (Inr r, c') \<Longrightarrow> \<forall>x\<in>set (rows r). comp_code x = t"
  using searchLogs_result[of ev c f r c'] page_rows_tenant by blast

lemma auditRoutes_page_tenant:
  assumes "current_tenant c = Some t" and "fst (auditRoutes ev req b c) = Page rs n k lim off"
  shows "\<forall>x\<in>set rs. comp_code x = t"
  using assms
  by (auto simp: auditRoutes_def post_logs_batch_def get_logs_user_def get_logs_app_def
        get_logs_search_def page_response_def
        split: http_method.splits path.splits option.splits if_splits prod.splits sum.splits
        dest: getUserLogs_tenant getAppLogs_tenant searchLogs_tenant)

lemma auth_rejects_with_failure: "auth ev req = Inl r \<Longrightarrow> \<exists>n m. r = Failure n m"
  by (auto simp: auth_def split: option.splits if_splits)

text \<open>
  C1. Whenever a request is answered with a page, the tenant of the request is a string
  \<open>A\<close> and every row of the page has \<open>comp_code = A\<close>. The three retrievals are the
  only routes that answer with a page; which filters the request carries plays no part.
\<close>

theorem returned_rows_belong_to_tenant:
  assumes "answered (audit ev req c) = Some (Page rs n k lim off)"
  shows "\<exists>A. request_comp_code req = Some (JStr A) \<and> (\<forall>x\<in>set rs. comp_code x = A)"
proof -
  obtain v where a: "auth ev req = Inr v"
    using assms by (cases "auth ev req") (auto simp: audit_def dest: auth_rejects_with_failure)
  let ?x = "tenantContext ev (Some v) (auditRoutes ev req) c"
  have "answered (finish ?x) = Some (Page rs n k lim off)"
    using assms a by (simp add: audit_def)
  then have "answered ?x = Some (Page rs n k lim off)"
    by (auto simp: finish_def split: option.splits if_splits)
  from tenantContext_reaches_routes[OF this]
  obtain t c3 where t: "v = JStr t" "current_tenant c3 = Some t"
      "fst (auditRoutes ev req True c3) = Page rs n k lim off"
    by auto
  from auditRoutes_page_tenant[OF t(2,3)] auth_truthy[OF a] t(1) show ?thesis by blast
qed

theorem returned_rows_belong_to_tenant_witness:
  "answered (audit example_env search_everything pooled_client) = Some (Page [row_c, row_a] 2 2 50 0)
   \<and> current_tenant pooled_client = Some ''COMP002''
   \<and> (\<exists>A. request_comp_code search_everything = Some (JStr A)
          \<and> list_all (\<lambda>x. comp_code x = A) [row_c, row_a])"
proof -
  have h: "answered (audit example_env search_everything pooled_client)
             = Some (Page [row_c, row_a] 2 2 50 0)"
    by code_simp
  have s: "current_tenant pooled_client = Some ''COMP002''"
    by (simp add: pooled_client_def)
  from returned_rows_belong_to_tenant[OF h] h s show ?thesis
    by (simp add: list_all_iff)
qed

section \<open>Pagination\<close>

lemma query_shape_page:
  assumes "query_shape ev q = Some v"
  shows "1 \<le> q_limit v \<and> q_limit v \<le> 200 \<and> 0 \<le> q_offset v
         \<and> (map_of q ''limit'' = None \<longrightarrow> q_limit v = 50)
         \<and> (map_of q ''offset'' = None \<longrightarrow> q_offset v = 0)
         \<and> (\<forall>j. map_of q ''limit'' = Some j \<longrightarrow> js_Number ev j = Some (q_limit v))
         \<and> (\<forall>j. map_of q ''offset'' = Some j \<longrightarrow> js_Number ev j = Some (q_offset v))"
  using assms
  by (auto simp: query_shape_def with_default_def z_limit_def z_offset_def
           split: Option.bind_splits option.splits if_splits)

lemma querySchema_page:
  assumes "querySchema_parse ev q = Some v"
  shows "1 \<le> q_limit v \<and> q_limit v \<le> 200 \<and> 0 \<le> q_offset v
         \<and> (map_of q ''limit'' = None \<longrightarrow> q_limit v = 50)
         \<and> (map_of q ''offset'' = None \<longrightarrow> q_offset v = 0)
         \<and> (\<forall>j. map_of q ''limit'' = Some j \<longrightarrow> js_Number ev j = Some (q_limit v))
         \<and> (\<forall>j. map_of q ''offset'' = Some j \<longrightarrow> js_Number ev j = Some (q_offset v))"
  using assms query_shape_page[of ev q v]
  by (simp add: querySchema_parse_def split: if_splits)

lemma searchSchema_page:
  assumes "searchSchema_parse ev q = Some v"
  shows "1 \<le> q_limit v \<and> q_limit v \<le> 200 \<and> 0 \<le> q_offset v
         \<and> (map_of q ''limit'' = None \<longrightarrow> q_limit v = 50)
         \<and> (map_of q ''offset'' = None \<longrightarrow> q_offset v = 0)
         \<and> (\<forall>j. map_of q ''limit'' = Some j \<longrightarrow> js_Number ev j = Some (q_limit v))
         \<and> (\<forall>j. map_of q ''offset'' = Some j \<longrightarrow> js_Number ev j = Some (q_offset v))"
proof -
  obtain v0 where v0: "query_shape ev q = Some v0" "q_limit v = q_limit v0" "q_offset v = q_offset v0"
    using assms
    by (auto simp: searchSchema_parse_def split: if_splits Option.bind_splits)
  from query_shape_page[OF v0(1)] v0(2,3) show ?thesis by simp
qed

lemma post_logs_batch_no_page: "fst (post_logs_batch ev req b c) \<noteq> Page rs n k lim off"
  by (auto simp: post_logs_batch_def split: option.splits if_splits prod.splits sum.splits)

lemma get_logs_user_sends:
  assumes "fst (get_logs_user ev req emp b c) = Page rs n k lim off"
  shows "\<exists>v f t bs. querySchema_parse ev (query_string req) = Some v
           \<and> f = \<lparr> q_comp_code = q_comp_code v, q_limit = q_limit v, q_offset = q_offset v,
                   q_from = q_from v, q_to = q_to v, uf_emp_id = emp \<rparr>
           \<and> lim = q_limit v \<and> off = q_offset v \<and> current_tenant c = Some t
           \<and> those (map (bind_cond (params (getUserLogs_page ev f))) (sql (getUserLogs_page ev f))) = Some bs
           \<and> n = length (matching t bs (table c))
           \<and> rs = take (nat lim) (drop (nat off)
                    (sort_key (\<lambda>r. - created_at r) (matching t bs (table c))))
           \<and> k = length rs
           \<and> journal (snd (get_logs_user ev req emp b c)) =
               journal c @ [Query (count_statement (getUserLogs_page ev f)),
                            Query (page_statement lim off (getUserLogs_page ev f))]"
proof -
  obtain v where v: "querySchema_parse ev (query_string req) = Some v"
    using assms by (auto simp: get_logs_user_def split: option.splits)
  let ?f = "\<lparr> q_comp_code = q_comp_code v, q_limit = q_limit v, q_offset = q_offset v,
              q_from = q_from v, q_to = q_to v, uf_emp_id = emp \<rparr>"
  obtain r c' where g: "getUserLogs ev c ?f = (Inr r, c')"
      and p: "Page rs n k lim off = page_response r (q_limit v) (q_offset v)"
      and s: "snd (get_logs_user ev req emp b c) = c'"
    using assms v
    by (auto simp: get_logs_user_def split: if_splits prod.splits sum.splits)
  from getUserLogs_result[OF g] p v s show ?thesis
    by (auto simp: page_response_def)
qed

lemma get_logs_app_sends:
  assumes "fst (get_logs_app ev req app b c) = Page rs n k lim off"
  shows "\<exists>v f t bs. querySchema_parse ev (query_string req) = Some v
           \<and> f = \<lparr> q_comp_code = q_comp_code v, q_limit = q_limit v, q_offset = q_offset v,
                   q_from = q_from v, q_to = q_to v, af_source_app = app,
                   af_source_function =
                     Option.bind (map_of (query_string req) ''source_function'') z_string \<rparr>
           \<and> lim = q_limit v \<and> off = q_offset v \<and> current_tenant c = Some t
           \<and> those (map (bind_cond (params (getAppLogs_page ev f))) (sql (getAppLogs_page ev f))) = Some bs
           \<and> n = length (matching t bs (table c))
           \<and> rs = take (nat lim) (drop (nat off)
                    (sort_key (\<lambda>r. - created_at r) (matching t bs (table c))))
           \<and> k = length rs
           \<and> journal (snd (get_logs_app ev req app b c)) =
               journal c @ [Query (count_statement (getAppLogs_page ev f)),
                            Query (page_statement lim off (getAppLogs_page ev f))]"
proof -
  obtain v where v: "querySchema_parse ev (query_string req) = Some v"
    using assms by (auto simp: get_logs_app_def split: option.splits)
  let ?f = "\<lparr> q_comp_code = q_comp_code v, q_limit = q_limit v, q_offset = q_offset v,
              q_from = q_from v, q_to = q_to v, af_source_app = app,
              af_source_function = Option.bind (map_of (query_string req) ''source_function'') z_string \<rparr>"
  obtain r c' where g: "getAppLogs ev c ?f = (Inr r, c')"
      and p: "Page rs n k lim off = page_response r (q_limit v) (q_offset v)"
      and s: "snd (get_logs_app ev req app b c) = c'"
    using assms v
    by (auto simp: get_logs_app_def split: if_splits prod.splits sum.splits)
  from getAppLogs_result[OF g] p v s show ?thesis
    by (auto simp: page_response_def)
qed

lemma get_logs_search_sends:
  assumes "fst (get_logs_search ev req b c) = Page rs n k lim off"
  shows "\<exists>v t bs. searchSchema_parse ev (query_string req) = Some v
           \<and> lim = q_limit v \<and> off = q_offset v \<and> current_tenant c = Some t
           \<and> those (map (bind_cond (params (searchLogs_page ev v))) (sql (searchLogs_page ev v))) = Some bs
           \<and> n = length (matching t bs (table c))
           \<and> rs = take (nat lim) (drop (nat off)
                    (sort_key (\<lambda>r. - created_at r) (matching t bs (table c))))
           \<and> k = length rs
           \<and> journal (snd (get_logs_search ev req b c)) =
               journal c @ [Query (count_statement (searchLogs_page ev v)),
                            Query (page_statement lim off (searchLogs_page ev v))]"
proof -
  obtain v where v: "searchSchema_parse ev (query_string req) = Some v"
    using assms by (auto simp: get_logs_search_def split: option.splits)
  obtain r c' where g: "searchLogs ev c v = (Inr r, c')"
      and p: "Page rs n k lim off = page_response r (q_limit v) (q_offset v)"
      and s: "snd (get_logs_search ev req b c) = c'"
    using assms v
    by (auto simp: get_logs_search_def split: if_splits prod.splits sum.splits)
  from searchLogs_result[OF g] p v s show ?thesis
    by (auto simp: page_response_def)
qed

text \<open>A route that answers with a page has sent the two statements of its builders.\<close>

lemma auditRoutes_page_sends:
  assumes "fst (auditRoutes ev req b c) = Page rs n k lim off"
  shows "\<exists>bc bp t bs. retrieval_queries ev req = Some (bc, bp) \<and> bc = bp
           \<and> current_tenant c = Some t
           \<and> those (map (bind_cond (params bc)) (sql bc)) = Some bs
           \<and> n = length (matching t bs (table c))
           \<and> rs = take (nat lim) (drop (nat off)
                    (sort_key (\<lambda>r. - created_at r) (matching t bs (table c))))
           \<and> k = length rs
           \<and> journal (snd (auditRoutes ev req b c)) =
               journal c @ [Query (count_statement bc), Query (page_statement lim off bp)]
           \<and> 1 \<le> lim \<and> lim \<le> 200 \<and> 0 \<le> off
           \<and> (map_of (query_string req) ''limit'' = None \<longrightarrow> lim = 50)
           \<and> (map_of (query_string req) ''offset'' = None \<longrightarrow> off = 0)
           \<and> (\<forall>j. map_of (query_string req) ''limit'' = Some j \<longrightarrow> js_Number ev j = Some lim)
           \<and> (\<forall>j. map_of (query_string req) ''offset'' = Some j \<longrightarrow> js_Number ev j = Some off)"
proof -
  consider (u) emp where "http_method req = GET" "path req = Logs_User emp"
        "auditRoutes ev req b c = get_logs_user ev req emp b c"
    | (a) app where "http_method req = GET" "path req = Logs_App app"
        "auditRoutes ev req b c = get_logs_app ev req app b c"
    | (s) "http_method req = GET" "path req = Logs_Search"
        "auditRoutes ev req b c = get_logs_search ev req b c"
    using assms post_logs_batch_no_page[of ev req b c rs n k lim off]
    by (auto simp: auditRoutes_def split: http_method.splits path.splits)
  then show ?thesis
  proof cases
    case u
    from get_logs_user_sends[OF assms[unfolded u(3)]] obtain v f t bs where
      f: "querySchema_parse ev (query_string req) = Some v"
         "f = \<lparr> q_comp_code = q_comp_code v, q_limit = q_limit v, q_offset = q_offset v,
                q_from = q_from v, q_to = q_to v, uf_emp_id = emp \<rparr>"
         "lim = q_limit v" "off = q_offset v" "current_tenant c = Some t"
         "those (map (bind_cond (params (getUserLogs_page ev f))) (sql (getUserLogs_page ev f))) = Some bs"
         "n = length (matching t bs (table c))"
         "rs = take (nat lim) (drop (nat off)
                    (sort_key (\<lambda>r. - created_at r) (matching t bs (table c))))"
         "k = length rs"
         "journal (snd (get_logs_user ev req emp b c)) =
               journal c @ [Query (count_statement (getUserLogs_page ev f)),
                            Query (page_statement lim off (getUserLogs_page ev f))]"
      by blast
    have q: "retrieval_queries ev req = Some (getUserLogs_page ev f, getUserLogs_page ev f)"
      using u(1,2) f(1,2) by (simp add: retrieval_queries_def Let_def same_predicates)
    from querySchema_page[OF f(1)] f(3,4) have l: "1 \<le> lim \<and> lim \<le> 200 \<and> 0 \<le> off
           \<and> (map_of (query_string req) ''limit'' = None \<longrightarrow> lim = 50)
           \<and> (map_of (query_string req) ''offset'' = None \<longrightarrow> off = 0)
           \<and> (\<forall>j. map_of (query_string req) ''limit'' = Some j \<longrightarrow> js_Number ev j = Some lim)
           \<and> (\<forall>j. map_of (query_string req) ''offset'' = Some j \<longrightarrow> js_Number ev j = Some off)"
      by simp
    show ?thesis using q f(5-10) l u(3) by simp
  next
    case a
    from get_logs_app_sends[OF assms[unfolded a(3)]] obtain v f t bs where
      f: "querySchema_parse ev (query_string req) = Some v"
         "f = \<lparr> q_comp_code = q_comp_code v, q_limit = q_limit v, q_offset = q_offset v,
                q_from = q_from v, q_to = q_to v, af_source_app = app,
                af_source_function =
                  Option.bind (map_of (query_string req) ''source_function'') z_string \<rparr>"
         "lim = q_limit v" "off = q_offset v" "current_tenant c = Some t"
         "those (map (bind_cond (params (getAppLogs_page ev f))) (sql (getAppLogs_page ev f))) = Some bs"
         "n = length (matching t bs (table c))"
         "rs = take (nat lim) (drop (nat off)
                    (sort_key (\<lambda>r. - created_at r) (matching t bs (table c))))"
         "k = length rs"
         "journal (snd (get_logs_app ev req app b c)) =
               journal c @ [Query (count_statement (getAppLogs_page ev f)),
                            Query (page_statement lim off (getAppLogs_page ev f))]"
      by blast
    have q: "retrieval_queries ev req = Some (getAppLogs_page ev f, getAppLogs_page ev f)"
      using a(1,2) f(1,2) by (simp add: retrieval_queries_def Let_def same_predicates)
    from querySchema_page[OF f(1)] f(3,4) have l: "1 \<le> lim \<and> lim \<le> 200 \<and> 0 \<le> off
           \<and> (map_of (query_string req) ''limit'' = None \<longrightarrow> lim = 50)
           \<and> (map_of (query_string req) ''offset'' = None \<longrightarrow> off = 0)
           \<and> (\<forall>j. map_of (query_string req) ''limit'' = Some j \<longrightarrow> js_Number ev j = Some lim)
           \<and> (\<forall>j. map_of (query_string req) ''offset'' = Some j \<longrightarrow> js_Number ev j = Some off)"
      by simp
    show ?thesis using q f(5-10) l a(3) by simp
  next
    case s
    from get_logs_search_sends[OF assms[unfolded s(3)]] obtain v t bs where
      f: "searchSchema_parse ev (query_string req) = Some v"
         "lim = q_limit v" "off = q_offset v" "current_tenant c = Some t"
         "those (map (bind_cond (params (searchLogs_page ev v))) (sql (searchLogs_page ev v))) = Some bs"
         "n = length (matching t bs (table c))"
         "rs = take (nat lim) (drop (nat off)
                    (sort_key (\<lambda>r. - created_at r) (matching t bs (table c))))"
         "k = length rs"
         "journal (snd (get_logs_search ev req b c)) =
               journal c @ [Query (count_statement (searchLogs_page ev v)),
                            Query (page_statement lim off (searchLogs_page ev v))]"
      by blast
    have q: "retrieval_queries ev req = Some (searchLogs_page ev v, searchLogs_page ev v)"
      using s(1,2) f(1) by (simp add: retrieval_queries_def same_predicates)
    from searchSchema_page[OF f(1)] f(2,3) have l: "1 \<le> lim \<and> lim \<le> 200 \<and> 0 \<le> off
           \<and> (map_of (query_string req) ''limit'' = None \<longrightarrow> lim = 50)
           \<and> (map_of (query_string req) ''offset'' = None \<longrightarrow> off = 0)
           \<and> (\<forall>j. map_of (query_string req) ''limit'' = Some j \<longrightarrow> js_Number ev j = Some lim)
           \<and> (\<forall>j. map_of (query_string req) ''offset'' = Some j \<longrightarrow> js_Number ev j = Some off)"
      by simp
    show ?thesis using q f(4-9) l s(3) by simp
  qed
qed

text \<open>The middleware whenever the chain is reached: the routes run on the bound client.\<close>

lemma tenantContext_runs_on_bound:
  assumes "answered (tenantContext ev (Some v) next c) = Some r"
    and "r \<noteq> Failure 500 ''Tenant setup failed''" and "r \<noteq> Failure 500 ''Tenant context not set''"
  shows "\<exists>t. v = JStr t
           \<and> tenantContext ev (Some v) next c =
               \<lparr> answered = Some (fst (next True (bound_to t c))), on_finish = True,
                 pg = respond (fst (next True (bound_to t c))) (snd (next True (bound_to t c))) \<rparr>"
proof -
  let ?c1 = "c\<lparr>journal := journal c @ [Connect]\<rparr>"
  have tr: "json_truthy v" and nf: "\<not> fault ev (tick c)"
    using assms by (auto simp: tenantContext_def split: if_splits)
  obtain t where v: "v = JStr t"
    using assms tr nf by (cases v) (auto simp: tenantContext_def Let_def setup_failed_def)
  obtain r2 c2 where s: "query ev (set_tenant_statement t) ?c1 = (r2, c2)"
    by (cases "query ev (set_tenant_statement t) ?c1")
  obtain x2 where r2: "r2 = Inr x2"
    using assms tr nf v s by (cases r2) (auto simp: tenantContext_def Let_def setup_failed_def)
  obtain r3 c3 where k: "query ev (Sql current_setting_sql []) c2 = (r3, c3)"
    by (cases "query ev (Sql current_setting_sql []) c2")
  obtain x3 where r3: "r3 = Inr x3"
    using assms tr nf v s r2 k by (cases r3) (auto simp: tenantContext_def Let_def setup_failed_def)
  have c3: "c3 = bound_to t c"
    using query_set_tenant[OF s[unfolded r2]] query_current_setting[OF k[unfolded r3]]
    by (simp add: bound_to_def)
  have "tenantContext ev (Some v) next c =
               \<lparr> answered = Some (fst (next True (bound_to t c))), on_finish = True,
                 pg = respond (fst (next True (bound_to t c))) (snd (next True (bound_to t c))) \<rparr>"
    using tr nf v s r2 k r3 c3 by (simp add: tenantContext_def Let_def split: prod.splits)
  then show ?thesis using v by blast
qed

lemma audit_page_exchange:
  assumes "answered (audit ev req c) = Some (Page rs n k lim off)"
  shows "\<exists>t. request_comp_code req = Some (JStr t)
           \<and> fst (auditRoutes ev req True (bound_to t c)) = Page rs n k lim off
           \<and> journal (pg (audit ev req c)) =
               journal (snd (auditRoutes ev req True (bound_to t c))) @ [Respond 200, Release]"
proof -
  obtain v where a: "auth ev req = Inr v"
    using assms by (cases "auth ev req") (auto simp: audit_def dest: auth_rejects_with_failure)
  let ?x = "tenantContext ev (Some v) (auditRoutes ev req) c"
  have e: "audit ev req c = finish ?x" using a by (simp add: audit_def)
  then have "answered (finish ?x) = Some (Page rs n k lim off)" using assms by simp
  then have p: "answered ?x = Some (Page rs n k lim off)"
    by (auto simp: finish_def split: option.splits if_splits)
  from tenantContext_runs_on_bound[OF p] obtain t where t: "v = JStr t"
      "?x = \<lparr> answered = Some (fst (auditRoutes ev req True (bound_to t c))), on_finish = True,
              pg = respond (fst (auditRoutes ev req True (bound_to t c)))
                     (snd (auditRoutes ev req True (bound_to t c))) \<rparr>"
    by auto
  have f: "fst (auditRoutes ev req True (bound_to t c)) = Page rs n k lim off"
    using p t(2) by simp
  have "journal (pg (audit ev req c)) =
               journal (snd (auditRoutes ev req True (bound_to t c))) @ [Respond 200, Release]"
    unfolding e t(2) using f by (simp add: finish_def respond_def release_def)
  then show ?thesis using auth_truthy[OF a] t(1) f by blast
qed

lemma bound_to_simps:
  "current_tenant (bound_to t c) = Some t" "table (bound_to t c) = table c"
  "txn (bound_to t c) = txn c" "committed (bound_to t c) = committed c"
  "journal (bound_to t c) = journal c @ [Connect, Query (set_tenant_statement t),
                                         Query (Sql current_setting_sql [])]"
  by (simp_all add: bound_to_def table_def split: txn_state.splits)

lemma audit_page_selection:
  assumes "answered (audit ev req c) = Some (Page rs n k lim off)"
  shows "\<exists>bc bp t bs srt.
           retrieval_queries ev req = Some (bc, bp) \<and> bc = bp
           \<and> request_comp_code req = Some (JStr t)
           \<and> journal (pg (audit ev req c)) =
               journal c @ [Connect, Query (set_tenant_statement t),
                            Query (Sql current_setting_sql []),
                            Query (count_statement bc), Query (page_statement lim off bp),
                            Respond 200, Release]
           \<and> those (map (bind_cond (params bc)) (sql bc)) = Some bs
           \<and> n = length (matching t bs (table c))
           \<and> latest_first (matching t bs (table c)) srt
           \<and> rs = take (nat lim) (drop (nat off) srt)
           \<and> k = length rs \<and> length rs \<le> nat lim
           \<and> sorted_wrt (\<lambda>a b. created_at b \<le> created_at a) rs
           \<and> 1 \<le> lim \<and> lim \<le> 200 \<and> 0 \<le> off
           \<and> (map_of (query_string req) ''limit'' = None \<longrightarrow> lim = 50)
           \<and> (map_of (query_string req) ''offset'' = None \<longrightarrow> off = 0)
           \<and> (\<forall>j. map_of (query_string req) ''limit'' = Some j \<longrightarrow> js_Number ev j = Some lim)
           \<and> (\<forall>j. map_of (query_string req) ''offset'' = Some j \<longrightarrow> js_Number ev j = Some off)"
proof -
  from audit_page_exchange[OF assms] obtain t where
    t: "request_comp_code req = Some (JStr t)"
       "fst (auditRoutes ev req True (bound_to t c)) = Page rs n k lim off"
       "journal (pg (audit ev req c)) =
               journal (snd (auditRoutes ev req True (bound_to t c))) @ [Respond 200, Release]"
    by blast
  from auditRoutes_page_sends[OF t(2)] obtain bc bs where
    r: "retrieval_queries ev req = Some (bc, bc)"
       "those (map (bind_cond (params bc)) (sql bc)) = Some bs"
       "n = length (matching t bs (table c))"
       "rs = take (nat lim) (drop (nat off)
                    (sort_key (\<lambda>r. - created_at r) (matching t bs (table c))))"
       "k = length rs"
       "journal (snd (auditRoutes ev req True (bound_to t c))) =
               journal (bound_to t c) @ [Query (count_statement bc), Query (page_statement lim off bc)]"
       "1 \<le> lim \<and> lim \<le> 200 \<and> 0 \<le> off
           \<and> (map_of (query_string req) ''limit'' = None \<longrightarrow> lim = 50)
           \<and> (map_of (query_string req) ''offset'' = None \<longrightarrow> off = 0)
           \<and> (\<forall>j. map_of (query_string req) ''limit'' = Some j \<longrightarrow> js_Number ev j = Some lim)
           \<and> (\<forall>j. map_of (query_string req) ''offset'' = Some j \<longrightarrow> js_Number ev j = Some off)"
    by (auto simp: bound_to_simps)
  let ?srt = "sort_key (\<lambda>r. - created_at r) (matching t bs (table c))"
  have lf: "latest_first (matching t bs (table c)) ?srt" by (rule latest_first_sort_key)
  have j: "journal (pg (audit ev req c)) =
               journal c @ [Connect, Query (set_tenant_statement t),
                            Query (Sql current_setting_sql []),
                            Query (count_statement bc), Query (page_statement lim off bc),
                            Respond 200, Release]"
    using t(3) r(6) by (simp add: bound_to_simps)
  have b: "length rs \<le> nat lim \<and> sorted_wrt (\<lambda>a b. created_at b \<le> created_at a) rs"
    using latest_first_page[OF lf, of "nat lim" "nat off"] r(4) by simp
  show ?thesis
    by (intro exI[of _ bc] exI[of _ t] exI[of _ bs] exI[of _ ?srt] conjI)
       (use r(1,2,3,4,5,7) t(1) j lf b in simp_all)
qed

lemma count_then_page_ok:
  assumes "idx b = Suc (length (params b))" and "current_tenant c = Some t" and "txn c \<noteq> Failed"
    and "\<not> fault ev (tick c)" and "\<not> fault ev (Suc (tick c))"
    and "those (map (bind_cond (params b)) (sql b)) = Some bs" and "0 \<le> lim" and "0 \<le> off"
  shows "\<exists>r c'. count_then_page ev (count_statement b) (page_statement lim off b) c = (Inr r, c')"
proof -
  let ?c1 = "c\<lparr>journal := journal c @ [Query (count_statement b)]\<rparr>"
  have q1: "query ev (count_statement b) c = (Inr (Count (length (matching t bs (table c)))), ?c1)"
    using assms(2,3,4,6)
    by (simp add: query_def Let_def exec_def exec_count_def count_statement_def)
  let ?ps = "params b @ [P_Num lim, P_Num off]"
  have b: "those (map (bind_cond ?ps) (sql b)) = Some bs"
    by (rule those_bind_append[OF assms(6)])
  have t1: "tick ?c1 = Suc (tick c)" by (simp add: tick_def)
  have "\<exists>rs c2. query ev (page_statement lim off b) ?c1 = (Inr (Rows rs), c2)"
    using assms(1,2,3,5,7,8) b t1 placeholder_limit_offset[of "params b" lim off]
    by (simp add: query_def Let_def exec_def exec_page_def page_statement_def)
  then show ?thesis using q1 by (auto simp: count_then_page_def)
qed

lemma auditRoutes_answers_page:
  assumes "retrieval_queries ev req = Some (bc, bp)"
    and "those (map (bind_cond (params bc)) (sql bc)) = Some bs"
    and "current_tenant c = Some t" and "txn c \<noteq> Failed"
    and "\<not> fault ev (tick c)" and "\<not> fault ev (Suc (tick c))"
  shows "\<exists>rs n k lim off. fst (auditRoutes ev req True c) = Page rs n k lim off"
proof -
  consider (u) emp v where "http_method req = GET" "path req = Logs_User emp"
        "querySchema_parse ev (query_string req) = Some v"
    | (a) app v where "http_method req = GET" "path req = Logs_App app"
        "querySchema_parse ev (query_string req) = Some v"
    | (s) v where "http_method req = GET" "path req = Logs_Search"
        "searchSchema_parse ev (query_string req) = Some v"
    using assms(1)
    by (auto simp: retrieval_queries_def split: http_method.splits path.splits)
  then show ?thesis
  proof cases
    case u
    let ?f = "\<lparr> q_comp_code = q_comp_code v, q_limit = q_limit v, q_offset = q_offset v,
                q_from = q_from v, q_to = q_to v, uf_emp_id = emp \<rparr>"
    have bc: "bc = getUserLogs_page ev ?f"
      using assms(1) u by (simp add: retrieval_queries_def Let_def same_predicates)
    from querySchema_page[OF u(3)] have l: "0 \<le> q_limit v" "0 \<le> q_offset v" by simp_all
    from count_then_page_ok[OF getUserLogs_page_idx[of ev ?f] assms(3,4,5,6) assms(2)[unfolded bc] l]
    obtain r c' where "getUserLogs ev c ?f = (Inr r, c')"
      by (auto simp: getUserLogs_def same_predicates)
    then show ?thesis using u
      by (simp add: auditRoutes_def get_logs_user_def page_response_def)
  next
    case a
    let ?f = "\<lparr> q_comp_code = q_comp_code v, q_limit = q_limit v, q_offset = q_offset v,
                q_from = q_from v, q_to = q_to v, af_source_app = app,
                af_source_function =
                  Option.bind (map_of (query_string req) ''source_function'') z_string \<rparr>"
    have bc: "bc = getAppLogs_page ev ?f"
      using assms(1) a by (simp add: retrieval_queries_def Let_def same_predicates)
    from querySchema_page[OF a(3)] have l: "0 \<le> q_limit v" "0 \<le> q_offset v" by simp_all
    from count_then_page_ok[OF getAppLogs_page_idx[of ev ?f] assms(3,4,5,6) assms(2)[unfolded bc] l]
    obtain r c' where "getAppLogs ev c ?f = (Inr r, c')"
      by (auto simp: getAppLogs_def same_predicates)
    then show ?thesis using a
      by (simp add: auditRoutes_def get_logs_app_def page_response_def)
  next
    case s
    have bc: "bc = searchLogs_page ev v"
      using assms(1) s by (simp add: retrieval_queries_def same_predicates)
    from searchSchema_page[OF s(3)] have l: "0 \<le> q_limit v" "0 \<le> q_offset v" by simp_all
    from count_then_page_ok[OF searchLogs_page_idx[of ev v] assms(3,4,5,6) assms(2)[unfolded bc] l]
    obtain r c' where "searchLogs ev c v = (Inr r, c')"
      by (auto simp: searchLogs_def same_predicates)
    then show ?thesis using s
      by (simp add: auditRoutes_def get_logs_search_def page_response_def)
  qed
qed

lemma audit_answers_page:
  assumes "retrieval_queries ev req = Some (bc, bp)"
    and "those (map (bind_cond (params bc)) (sql bc)) = Some bs"
    and "auth ev req = Inr (JStr t)" and "CHR 0x00 \<notin> set t" and "txn c \<noteq> Failed"
    and "\<not> fault ev (tick c)" and "\<not> fault ev (tick c + 1)" and "\<not> fault ev (tick c + 2)"
    and "\<not> fault ev (tick c + 3)" and "\<not> fault ev (tick c + 4)"
  shows "\<exists>rs n k lim off. answered (audit ev req c) = Some (Page rs n k lim off)"
proof -
  have f: "\<not> fault ev (tick c)" "\<not> fault ev (Suc (tick c))" "\<not> fault ev (Suc (Suc (tick c)))"
          "\<not> fault ev (tick c + 3)" "\<not> fault ev (Suc (tick c + 3))"
    using assms(6-10) by (simp_all add: add.commute)
  have ne: "t \<noteq> []" using auth_truthy[OF assms(3)] by (simp add: json_truthy_def)
  let ?b = "bound_to t c"
  have x: "tenantContext ev (Some (JStr t)) (auditRoutes ev req) c =
           \<lparr> answered = Some (fst (auditRoutes ev req True ?b)), on_finish = True,
             pg = respond (fst (auditRoutes ev req True ?b)) (snd (auditRoutes ev req True ?b)) \<rparr>"
    by (rule tenantContext_bound[OF ne assms(4,5) f(1,2,3)])
  have tb: "tick ?b = tick c + 3" by (simp add: tick_def bound_to_simps)
  from auditRoutes_answers_page[OF assms(1,2), of ?b t] assms(5) f(4,5) tb
  obtain rs n k lim off where "fst (auditRoutes ev req True ?b) = Page rs n k lim off"
    by (auto simp: bound_to_simps)
  then show ?thesis using assms(3) x by (simp add: audit_def finish_def)
qed


text \<open>
  C9. Whenever a request is answered with a page, the request is one of the three
  retrievals and its validation has passed; the request has sent, on the client bound to
  its tenant, one count query and then one page query, and the two are built from one and
  the same conditions, parameters and placeholder numbers; the total is the number of
  rows of the tenant that satisfy those conditions, and the page is the slice that
  \<open>OFFSET off LIMIT lim\<close> cuts from those same rows put latest first; the limit is the
  number the request names, 50 when it names none, and lies in [1, 200]; the offset is
  the number the request names, 0 when it names none, and is at least 0; and the page
  has at most \<open>lim\<close> rows, latest first. And a validated
  retrieval is answered with a page whenever its key is accepted, its tenant holds no NUL
  character, its parameters bind, the client is not in a failed transaction and the store
  fails none of the five steps (taking the client, the SET, the check, the count, the
  page).
\<close>

theorem page_and_total_of_one_selection:
  "(answered (audit ev req c) = Some (Page rs n k lim off) \<longrightarrow>
      (\<exists>bc bp t bs srt.
           retrieval_queries ev req = Some (bc, bp) \<and> bc = bp
           \<and> request_comp_code req = Some (JStr t)
           \<and> journal (pg (audit ev req c)) =
               journal c @ [Connect, Query (set_tenant_statement t),
                            Query (Sql current_setting_sql []),
                            Query (count_statement bc), Query (page_statement lim off bp),
                            Respond 200, Release]
           \<and> those (map (bind_cond (params bc)) (sql bc)) = Some bs
           \<and> n = length (matching t bs (table c))
           \<and> latest_first (matching t bs (table c)) srt
           \<and> rs = take (nat lim) (drop (nat off) srt)
           \<and> k = length rs \<and> length rs \<le> nat lim
           \<and> sorted_wrt (\<lambda>a b. created_at b \<le> created_at a) rs
           \<and> 1 \<le> lim \<and> lim \<le> 200 \<and> 0 \<le> off
           \<and> (map_of (query_string req) ''limit'' = None \<longrightarrow> lim = 50)
           \<and> (map_of (query_string req) ''offset'' = None \<longrightarrow> off = 0)
           \<and> (\<forall>j. map_of (query_string req) ''limit'' = Some j \<longrightarrow> js_Number ev j = Some lim)
           \<and> (\<forall>j. map_of (query_string req) ''offset'' = Some j \<longrightarrow> js_Number ev j = Some off)))
   \<and> (retrieval_queries ev req = Some (qc, qp)
        \<and> those (map (bind_cond (params qc)) (sql qc)) = Some qs
        \<and> auth ev req = Inr (JStr a) \<and> CHR 0x00 \<notin> set a \<and> txn c \<noteq> Failed
        \<and> \<not> fault ev (tick c) \<and> \<not> fault ev (tick c + 1) \<and> \<not> fault ev (tick c + 2)
        \<and> \<not> fault ev (tick c + 3) \<and> \<not> fault ev (tick c + 4) \<longrightarrow>
      (\<exists>rs' n' k' lim' off'. answered (audit ev req c) = Some (Page rs' n' k' lim' off')))"
proof (intro conjI impI)
  assume "answered (audit ev req c) = Some (Page rs n k lim off)"
  then show "\<exists>bc bp t bs srt.
           retrieval_queries ev req = Some (bc, bp) \<and> bc = bp
           \<and> request_comp_code req = Some (JStr t)
           \<and> journal (pg (audit ev req c)) =
               journal c @ [Connect, Query (set_tenant_statement t),
                            Query (Sql current_setting_sql []),
                            Query (count_statement bc), Query (page_statement lim off bp),
                            Respond 200, Release]
           \<and> those (map (bind_cond (params bc)) (sql bc)) = Some bs
           \<and> n = length (matching t bs (table c))
           \<and> latest_first (matching t bs (table c)) srt
           \<and> rs = take (nat lim) (drop (nat off) srt)
           \<and> k = length rs \<and> length rs \<le> nat lim
           \<and> sorted_wrt (\<lambda>a b. created_at b \<le> created_at a) rs
           \<and> 1 \<le> lim \<and> lim \<le> 200 \<and> 0 \<le> off
           \<and> (map_of (query_string req) ''limit'' = None \<longrightarrow> lim = 50)
           \<and> (map_of (query_string req) ''offset'' = None \<longrightarrow> off = 0)
           \<and> (\<forall>j. map_of (query_string req) ''limit'' = Some j \<longrightarrow> js_Number ev j = Some lim)
           \<and> (\<forall>j. map_of (query_string req) ''offset'' = Some j \<longrightarrow> js_Number ev j = Some off)"
    by (rule audit_page_selection)
next
  assume h: "retrieval_queries ev req = Some (qc, qp)
        \<and> those (map (bind_cond (params qc)) (sql qc)) = Some qs
        \<and> auth ev req = Inr (JStr a) \<and> CHR 0x00 \<notin> set a \<and> txn c \<noteq> Failed
        \<and> \<not> fault ev (tick c) \<and> \<not> fault ev (tick c + 1) \<and> \<not> fault ev (tick c + 2)
        \<and> \<not> fault ev (tick c + 3) \<and> \<not> fault ev (tick c + 4)"
  show "\<exists>rs' n' k' lim' off'. answered (audit ev req c) = Some (Page rs' n' k' lim' off')"
    by (rule audit_answers_page[of ev req qc qp qs a c]) (use h in simp_all)
qed

theorem page_and_total_of_one_selection_witness:
  "retrieval_queries example_env app_of_mobile =
      Some (\<lparr> sql = [Col_Eq Comp_code 1, Col_Eq Source_app 2],
               params = [P_Str ''COMP001'', P_Str ''MOBILE_APP''], idx = 3 \<rparr>,
            \<lparr> sql = [Col_Eq Comp_code 1, Col_Eq Source_app 2],
               params = [P_Str ''COMP001'', P_Str ''MOBILE_APP''], idx = 3 \<rparr>)
   \<and> those (map (bind_cond [P_Str ''COMP001'', P_Str ''MOBILE_APP''])
               [Col_Eq Comp_code 1, Col_Eq Source_app 2])
        = Some [B_Eq Comp_code ''COMP001'', B_Eq Source_app ''MOBILE_APP'']
   \<and> auth example_env app_of_mobile = Inr (JStr ''COMP001'')
   \<and> CHR 0x00 \<notin> set ''COMP001'' \<and> txn pooled_client \<noteq> Failed
   \<and> \<not> fault example_env (tick pooled_client) \<and> \<not> fault example_env (tick pooled_client + 1)
   \<and> \<not> fault example_env (tick pooled_client + 2) \<and> \<not> fault example_env (tick pooled_client + 3)
   \<and> \<not> fault example_env (tick pooled_client + 4)
   \<and> (\<exists>rs n k lim off. answered (audit example_env app_of_mobile pooled_client)
                            = Some (Page rs n k lim off))
   \<and> answered (audit example_env app_of_mobile pooled_client) = Some (Page [row_c, row_a] 2 2 50 0)
   \<and> answered (audit example_env search_everything pooled_client) = Some (Page [row_c, row_a] 2 2 50 0)
   \<and> answered (audit example_env second_of_employee pooled_client) = Some (Page [row_a] 2 1 1 1)
   \<and> map_of (query_string app_of_mobile) ''limit'' = None
   \<and> map_of (query_string app_of_mobile) ''offset'' = None
   \<and> (\<exists>bc t bs srt.
          retrieval_queries example_env app_of_mobile = Some (bc, bc)
          \<and> journal (pg (audit example_env app_of_mobile pooled_client)) =
               [Connect, Query (set_tenant_statement t), Query (Sql current_setting_sql []),
                Query (count_statement bc), Query (page_statement 50 0 bc), Respond 200, Release]
          \<and> those (map (bind_cond (params bc)) (sql bc)) = Some bs
          \<and> 2 = length (matching t bs (table pooled_client))
          \<and> latest_first (matching t bs (table pooled_client)) srt
          \<and> [row_c, row_a] = take (nat 50) (drop (nat 0) srt))
   \<and> (\<exists>bc t bs srt.
          retrieval_queries example_env search_everything = Some (bc, bc)
          \<and> journal (pg (audit example_env search_everything pooled_client)) =
               [Connect, Query (set_tenant_statement t), Query (Sql current_setting_sql []),
                Query (count_statement bc), Query (page_statement 50 0 bc), Respond 200, Release]
          \<and> those (map (bind_cond (params bc)) (sql bc)) = Some bs
          \<and> 2 = length (matching t bs (table pooled_client))
          \<and> latest_first (matching t bs (table pooled_client)) srt
          \<and> [row_c, row_a] = take (nat 50) (drop (nat 0) srt))
   \<and> (\<exists>bc t bs srt.
          retrieval_queries example_env second_of_employee = Some (bc, bc)
          \<and> journal (pg (audit example_env second_of_employee pooled_client)) =
               [Connect, Query (set_tenant_statement t), Query (Sql current_setting_sql []),
                Query (count_statement bc), Query (page_statement 1 1 bc), Respond 200, Release]
          \<and> those (map (bind_cond (params bc)) (sql bc)) = Some bs
          \<and> 2 = length (matching t bs (table pooled_client))
          \<and> latest_first (matching t bs (table pooled_client)) srt
          \<and> [row_a] = take (nat 1) (drop (nat 1) srt))"
proof -
  let ?b = "\<lparr> sql = [Col_Eq Comp_code 1, Col_Eq Source_app 2],
              params = [P_Str ''COMP001'', P_Str ''MOBILE_APP''], idx = 3 \<rparr>"
  have q: "retrieval_queries example_env app_of_mobile = Some (?b, ?b)"
    by code_simp
  have b: "those (map (bind_cond (params ?b)) (sql ?b))
             = Some [B_Eq Comp_code ''COMP001'', B_Eq Source_app ''MOBILE_APP'']"
    by code_simp
  have u: "auth example_env app_of_mobile = Inr (JStr ''COMP001'')"
    by code_simp
  have f: "CHR 0x00 \<notin> set ''COMP001''" "txn pooled_client \<noteq> Failed"
      "\<not> fault example_env (tick pooled_client)" "\<not> fault example_env (tick pooled_client + 1)"
      "\<not> fault example_env (tick pooled_client + 2)" "\<not> fault example_env (tick pooled_client + 3)"
      "\<not> fault example_env (tick pooled_client + 4)"
    by (simp_all add: pooled_client_def example_env_def)
  have l: "map_of (query_string app_of_mobile) ''limit'' = None"
          "map_of (query_string app_of_mobile) ''offset'' = None"
    by (simp_all add: app_of_mobile_def)
  have a: "answered (audit example_env app_of_mobile pooled_client)
             = Some (Page [row_c, row_a] 2 2 50 0)"
    by code_simp
  have h: "answered (audit example_env search_everything pooled_client)
             = Some (Page [row_c, row_a] 2 2 50 0)"
    by code_simp
  have k: "answered (audit example_env second_of_employee pooled_client) = Some (Page [row_a] 2 1 1 1)"
    by code_simp
  have j: "journal pooled_client = []" by (simp add: pooled_client_def)
  note p = page_and_total_of_one_selection
             [of example_env app_of_mobile pooled_client _ _ _ _ _ ?b ?b
                 "[B_Eq Comp_code ''COMP001'', B_Eq Source_app ''MOBILE_APP'']" "''COMP001''",
              THEN conjunct2, rule_format, OF conjI[OF q conjI[OF b conjI[OF u]]]]
  have e: "\<exists>rs n k lim off. answered (audit example_env app_of_mobile pooled_client)
                            = Some (Page rs n k lim off)"
    using p f by simp
  note r1 = page_and_total_of_one_selection
              [of example_env app_of_mobile pooled_client "[row_c, row_a]" 2 2 50 0,
               THEN conjunct1, rule_format, OF a, unfolded j append_Nil]
  note r2 = page_and_total_of_one_selection
              [of example_env search_everything pooled_client "[row_c, row_a]" 2 2 50 0,
               THEN conjunct1, rule_format, OF h, unfolded j append_Nil]
  note r3 = page_and_total_of_one_selection
              [of example_env second_of_employee pooled_client "[row_a]" 2 1 1 1,
               THEN conjunct1, rule_format, OF k, unfolded j append_Nil]
  have w1: "\<exists>bc t bs srt.
          retrieval_queries example_env app_of_mobile = Some (bc, bc)
          \<and> journal (pg (audit example_env app_of_mobile pooled_client)) =
               [Connect, Query (set_tenant_statement t), Query (Sql current_setting_sql []),
                Query (count_statement bc), Query (page_statement 50 0 bc), Respond 200, Release]
          \<and> those (map (bind_cond (params bc)) (sql bc)) = Some bs
          \<and> 2 = length (matching t bs (table pooled_client))
          \<and> latest_first (matching t bs (table pooled_client)) srt
          \<and> [row_c, row_a] = take (nat 50) (drop (nat 0) srt)"
    using r1 by blast
  have w2: "\<exists>bc t bs srt.
          retrieval_queries example_env search_everything = Some (bc, bc)
          \<and> journal (pg (audit example_env search_everything pooled_client)) =
               [Connect, Query (set_tenant_statement t), Query (Sql current_setting_sql []),
                Query (count_statement bc), Query (page_statement 50 0 bc), Respond 200, Release]
          \<and> those (map (bind_cond (params bc)) (sql bc)) = Some bs
          \<and> 2 = length (matching t bs (table pooled_client))
          \<and> latest_first (matching t bs (table pooled_client)) srt
          \<and> [row_c, row_a] = take (nat 50) (drop (nat 0) srt)"
    using r2 by blast
  have w3: "\<exists>bc t bs srt.
          retrieval_queries example_env second_of_employee = Some (bc, bc)
          \<and> journal (pg (audit example_env second_of_employee pooled_client)) =
               [Connect, Query (set_tenant_statement t), Query (Sql current_setting_sql []),
                Query (count_statement bc), Query (page_statement 1 1 bc), Respond 200, Release]
          \<and> those (map (bind_cond (params bc)) (sql bc)) = Some bs
          \<and> 2 = length (matching t bs (table pooled_client))
          \<and> latest_first (matching t bs (table pooled_client)) srt
          \<and> [row_a] = take (nat 1) (drop (nat 1) srt)"
    using r3 by blast
  show ?thesis
    using q b u f l a h k e w1 w2 w3 by simp
qed


section \<open>Validation in the routes\<close>

lemma batchSchema_oversized:
  assumes "object_field kvs ''logs'' = Some (JArr xs)" and "1000 < length xs"
  shows "batchSchema_parse ev (JObj kvs) = None"
  using assms
  by (auto simp: batchSchema_parse_def required_def z_logs_def split: Option.bind_splits)

lemma auth_passes:
  assumes "request_comp_code req = Some (JStr t)" and "t \<noteq> []"
    and "x_api_key req = Some key" and "key \<noteq> []" and "API_KEYS ev t = Some key"
  shows "auth ev req = Inr (JStr t)"
  using assms by (simp add: auth_def json_truthy_def truthy_def property_key_def)

lemma audit_bound:
  assumes "auth ev req = Inr (JStr t)" and "t \<noteq> []" and "CHR 0x00 \<notin> set t"
    and "txn c \<noteq> Failed" and "\<forall>n. \<not> fault ev n"
    and "auditRoutes ev req True (bound_to t c) = (r, c')"
  shows "audit ev req c = \<lparr> answered = Some r, on_finish = True, pg = release (respond r c') \<rparr>"
  using assms tenantContext_bound[of t c ev "auditRoutes ev req"]
  by (simp add: audit_def finish_def)

lemma oversized_batch_exchange:
  assumes "http_method req = POST" and "path req = Logs_Batch"
    and "body req = JObj kvs"
    and "object_field kvs ''logs'' = Some (JArr xs)" and "1000 < length xs"
    and "object_field kvs ''comp_code'' = Some (JStr t)" and "t \<noteq> []" and "CHR 0x00 \<notin> set t"
    and "x_api_key req = Some key" and "key \<noteq> []" and "API_KEYS ev t = Some key"
    and "\<forall>n. \<not> fault ev n" and "txn c \<noteq> Failed"
  shows "answered (audit ev req c) = Some (Failure 400 ''Validation failed'')
         \<and> committed (pg (audit ev req c)) = committed c
         \<and> journal (pg (audit ev req c)) =
             journal c @ [Connect, Query (set_tenant_statement t), Query (Sql current_setting_sql []),
                          Respond 400, Release]"
proof -
  have cc: "request_comp_code req = Some (JStr t)"
    using assms(1,3,6) by (simp add: request_comp_code_def)
  have a: "auth ev req = Inr (JStr t)"
    using auth_passes[OF cc assms(7,9,10,11)] .
  have h: "auditRoutes ev req True (bound_to t c) = (Failure 400 ''Validation failed'', bound_to t c)"
    using assms(1,2,3) batchSchema_oversized[OF assms(4,5)]
    by (simp add: auditRoutes_def post_logs_batch_def)
  from audit_bound[OF a assms(7,8,13,12) h] show ?thesis
    by (simp add: release_def respond_def bound_to_def)
qed

text \<open>
  C6, as the code has it. A batch of more than 1000 entries from a request that passes
  \<open>auth\<close>, on a store that answers, is refused with 400 by the route's validation; the
  committed table is unchanged. By then the client has been taken from the pool and the
  tenant SET and its check have run on it; these, the response and the release are all
  that happens, and no BEGIN or INSERT is sent.
\<close>

theorem oversized_batch_rejected:
  assumes "http_method req = POST" and "path req = Logs_Batch"
    and "body req = JObj kvs"
    and "object_field kvs ''logs'' = Some (JArr xs)" and "1000 < length xs"
    and "object_field kvs ''comp_code'' = Some (JStr t)" and "t \<noteq> []" and "CHR 0x00 \<notin> set t"
    and "x_api_key req = Some key" and "key \<noteq> []" and "API_KEYS ev t = Some key"
    and "\<forall>n. \<not> fault ev n" and "txn c \<noteq> Failed"
  shows "answered (audit ev req c) = Some (Failure 400 ''Validation failed'')
         \<and> committed (pg (audit ev req c)) = committed c
         \<and> journal (pg (audit ev req c)) =
             journal c @ [Connect, Query (set_tenant_statement t), Query (Sql current_setting_sql []),
                          Respond 400, Release]"
  using assms by (rule oversized_batch_exchange)

lemma oversized_batch_facts:
  "http_method oversized_batch = POST" "path oversized_batch = Logs_Batch"
  "body oversized_batch = JObj [(''comp_code'', JStr ''COMP001''), (''logs'', JArr (replicate 1001 minimal_entry))]"
  "object_field [(''comp_code'', JStr ''COMP001''), (''logs'', JArr (replicate 1001 minimal_entry))] ''logs''
     = Some (JArr (replicate 1001 minimal_entry))"
  "1000 < length (replicate 1001 minimal_entry)"
  "object_field [(''comp_code'', JStr ''COMP001''), (''logs'', JArr (replicate 1001 minimal_entry))] ''comp_code''
     = Some (JStr ''COMP001'')"
  "''COMP001'' \<noteq> []" "CHR 0x00 \<notin> set ''COMP001''"
  "x_api_key oversized_batch = Some ''super-secret-key-comp001-2026''"
  "''super-secret-key-comp001-2026'' \<noteq> []"
  "API_KEYS example_env ''COMP001'' = Some ''super-secret-key-comp001-2026''"
  "\<forall>n. \<not> fault example_env n" "txn pooled_client \<noteq> Failed"
  by (simp_all add: oversized_batch_def object_field_def example_env_def pooled_client_def)

theorem oversized_batch_rejected_witness:
  "length (replicate 1001 minimal_entry) = 1001
   \<and> answered (audit example_env oversized_batch pooled_client) = Some (Failure 400 ''Validation failed'')
   \<and> committed (pg (audit example_env oversized_batch pooled_client)) = committed pooled_client
   \<and> journal (pg (audit example_env oversized_batch pooled_client)) =
        journal pooled_client @ [Connect, Query (set_tenant_statement ''COMP001''),
                                 Query (Sql current_setting_sql []), Respond 400, Release]"
  using oversized_batch_rejected[OF oversized_batch_facts] by simp

text \<open>
  C6 as stated fails: the validation of the route runs after \<open>tenantContext\<close>, so the
  store has been reached three times when the 400 is sent.
\<close>

theorem oversized_batch_store_access_counterexample:
  "answered (audit example_env oversized_batch pooled_client) = Some (Failure 400 ''Validation failed'')
   \<and> journal (pg (audit example_env oversized_batch pooled_client)) =
        [Connect, Query (set_tenant_statement ''COMP001''), Query (Sql current_setting_sql []),
         Respond 400, Release]"
  using oversized_batch_exchange[OF oversized_batch_facts] by (simp add: pooled_client_def)

lemma strict_rejects:
  assumes "map_of q k = Some v" and "k \<notin> set ks"
  shows "\<not> known_keys ks q"
proof -
  have "(k, v) \<in> set q" using assms(1) by (rule map_of_SomeD)
  then show ?thesis using assms(2) by (auto simp: known_keys_def list_all_iff)
qed

text \<open>
  C8. The application route never applies a \<open>source_function\<close> filter: a query string
  that names \<open>source_function\<close> is refused by the strict \<open>querySchema\<close> with 400, the
  client untouched, before \<open>getAppLogs\<close> is called.
\<close>

theorem source_function_is_refused:
  assumes "http_method req = GET" and "path req = Logs_App app"
    and "map_of (query_string req) ''source_function'' = Some v"
  shows "auditRoutes ev req dbClient c = (Failure 400 ''Invalid query parameters'', c)"
proof -
  have "\<not> known_keys [''comp_code'', ''limit'', ''offset'', ''from'', ''to''] (query_string req)"
    using assms(3) by (rule strict_rejects) simp
  then have "querySchema_parse ev (query_string req) = None"
    by (simp add: querySchema_parse_def)
  then show ?thesis using assms(1,2) by (simp add: auditRoutes_def get_logs_app_def)
qed

theorem source_function_is_refused_witness:
  "http_method app_by_function = GET \<and> path app_by_function = Logs_App ''MOBILE_APP''
   \<and> map_of (query_string app_by_function) ''source_function'' = Some (JStr ''CHECK_IN'')
   \<and> auditRoutes example_env app_by_function True (bound_to ''COMP001'' pooled_client)
        = (Failure 400 ''Invalid query parameters'', bound_to ''COMP001'' pooled_client)
   \<and> answered (audit example_env app_by_function pooled_client)
        = Some (Failure 400 ''Invalid query parameters'')"
proof -
  have a: "http_method app_by_function = GET" "path app_by_function = Logs_App ''MOBILE_APP''"
          "map_of (query_string app_by_function) ''source_function'' = Some (JStr ''CHECK_IN'')"
    by (simp_all add: app_by_function_def)
  have e: "answered (audit example_env app_by_function pooled_client)
             = Some (Failure 400 ''Invalid query parameters'')"
    by code_simp
  from source_function_is_refused[OF a, of example_env True "bound_to ''COMP001'' pooled_client"] a e
  show ?thesis by simp
qed

lemma query_shape_comp_code:
  assumes "query_shape ev q = Some v"
  shows "map_of q ''comp_code'' = Some (JStr (q_comp_code v)) \<and> q_comp_code v \<noteq> []"
  using assms
  by (auto simp: query_shape_def required_def z_tenant_def
           split: Option.bind_splits option.splits json.splits if_splits)

lemma query_shape_metadata:
  "query_shape ev ((''metadata'', x) # q) = query_shape ev q"
  by (simp add: query_shape_def)

lemma searchSchema_shape:
  assumes "searchSchema_parse ev q = Some v"
  shows "\<exists>v0. query_shape ev q = Some v0 \<and> q_comp_code v0 = q_comp_code v"
  using assms
  by (auto simp: searchSchema_parse_def split: if_splits Option.bind_splits)

lemma searchSchema_any_metadata:
  assumes "searchSchema_parse ev q = Some v"
  shows "searchSchema_parse ev ((''metadata'', JStr m) # q) = Some (v\<lparr>sf_metadata := Some m\<rparr>)"
proof -
  have k: "known_keys [''comp_code'', ''limit'', ''offset'', ''from'', ''to'',
                        ''source_app'', ''source_function'', ''reference_id'', ''created_by'',
                        ''action'', ''metadata''] q"
    using assms by (auto simp: searchSchema_parse_def split: if_splits)
  then have k': "known_keys [''comp_code'', ''limit'', ''offset'', ''from'', ''to'',
                        ''source_app'', ''source_function'', ''reference_id'', ''created_by'',
                        ''action'', ''metadata''] ((''metadata'', JStr m) # q)"
    by (simp add: known_keys_def)
  obtain v0 app fn ref who act md where
    parts: "query_shape ev q = Some v0"
      "optional (z_string_max 100) (map_of q ''source_app'') = Some app"
      "optional (z_string_max 150) (map_of q ''source_function'') = Some fn"
      "optional (z_string_max 150) (map_of q ''reference_id'') = Some ref"
      "optional (z_string_max 50) (map_of q ''created_by'') = Some who"
      "optional (z_string_max 100) (map_of q ''action'') = Some act"
      "optional z_string (map_of q ''metadata'') = Some md"
      "v = \<lparr> q_comp_code = q_comp_code v0, q_limit = q_limit v0, q_offset = q_offset v0,
               q_from = q_from v0, q_to = q_to v0,
               sf_source_app = app, sf_source_function = fn, sf_reference_id = ref,
               sf_created_by = who, sf_action = act, sf_metadata = md \<rparr>"
    using assms k
    by (auto simp: searchSchema_parse_def split: Option.bind_splits)
  have "optional z_string (Some (JStr m)) = Some (Some m)"
    by (simp add: optional_def z_string_def)
  then show ?thesis
    using k' parts
    by (simp add: searchSchema_parse_def[of ev "(''metadata'', JStr m) # q"] query_shape_metadata)
qed

lemma those_snoc_None: "those (ys @ [None]) = None"
  by (induction ys) (auto split: option.splits)

lemma and_metadata_unbindable:
  assumes "idx b = Suc (length (params b))" and "m \<noteq> []" and "json_parse m = None"
  shows "those (map (bind_cond (params (and_metadata (Some m) b))) (sql (and_metadata (Some m) b))) = None"
proof -
  have "bind_cond (params b @ [P_Str m]) (Metadata_Contains (Suc (length (params b)))) = None"
    using assms(3) by (simp add: placeholder_def nth_append)
  then have "those (map (bind_cond (params b @ [P_Str m])) (sql b @ [Metadata_Contains (Suc (length (params b)))])) = None"
    by (simp only: map_append list.map those_snoc_None)
  then show ?thesis
    using assms(1,2) by (simp only: and_metadata_def truthy_def option.case if_False builder.simps) simp
qed

lemma searchLogs_count_unbindable:
  assumes "sf_metadata f = Some m" and "m \<noteq> []" and "json_parse m = None"
  shows "those (map (bind_cond (params (searchLogs_count ev f))) (sql (searchLogs_count ev f))) = None"
  unfolding searchLogs_count_def assms(1)
  by (rule and_metadata_unbindable[OF _ assms(2,3)]) (intro builder_idx, simp)

lemma searchLogs_invalid_metadata:
  assumes "sf_metadata f = Some m" and "m \<noteq> []" and "json_parse m = None"
    and "\<not> fault ev (tick c)" and "txn c \<noteq> Failed" and "current_tenant c = Some t"
  shows "searchLogs ev c f =
           (Inl Invalid_Parameter,
            fail_txn (c\<lparr>journal := journal c @ [Query (count_statement (searchLogs_count ev f))]\<rparr>))"
  using assms(4,5,6) searchLogs_count_unbindable[OF assms(1,2,3), of ev]
  by (simp add: searchLogs_def count_then_page_def count_statement_def query_def exec_def
        exec_count_def Let_def)

text \<open>
  C10, as the code has it. Take any query string the search schema accepts and put any
  string \<open>m\<close> in front as its \<open>metadata\<close>: the schema accepts that too. When \<open>m\<close> is
  not empty and is not JSON, and the request passes \<open>auth\<close> on a store that answers, the
  count query is sent with \<open>m\<close> as its document parameter, the store refuses it, and the
  response is 500 "Query failed".
\<close>

theorem invalid_metadata_is_a_storage_error:
  assumes "http_method req = GET" and "path req = Logs_Search"
    and "query_string req = (''metadata'', JStr m) # q"
    and "searchSchema_parse ev q = Some v"
    and "m \<noteq> []" and "json_parse m = None"
    and "x_api_key req = Some key" and "key \<noteq> []" and "API_KEYS ev (q_comp_code v) = Some key"
    and "CHR 0x00 \<notin> set (q_comp_code v)"
    and "\<forall>n. \<not> fault ev n" and "txn c \<noteq> Failed"
  shows "searchSchema_parse ev (query_string req) = Some (v\<lparr>sf_metadata := Some m\<rparr>)
         \<and> answered (audit ev req c) = Some (Failure 500 ''Query failed'')
         \<and> journal (pg (audit ev req c)) =
             journal c @ [Connect, Query (set_tenant_statement (q_comp_code v)),
                          Query (Sql current_setting_sql []),
                          Query (count_statement (searchLogs_count ev (v\<lparr>sf_metadata := Some m\<rparr>))),
                          Respond 500, Release]"
proof -
  let ?t = "q_comp_code v"
  let ?v = "v\<lparr>sf_metadata := Some m\<rparr>"
  let ?b = "bound_to ?t c"
  have valid: "searchSchema_parse ev (query_string req) = Some ?v"
    using searchSchema_any_metadata[OF assms(4)] assms(3) by simp
  obtain v0 where v0: "query_shape ev q = Some v0" "q_comp_code v0 = ?t"
    using searchSchema_shape[OF assms(4)] by blast
  have cc: "request_comp_code req = Some (JStr ?t)" and ne: "?t \<noteq> []"
    using query_shape_comp_code[OF v0(1)] v0(2) assms(1,3) by (simp_all add: request_comp_code_def)
  have a: "auth ev req = Inr (JStr ?t)"
    using auth_passes[OF cc ne assms(7,8,9)] .
  have b: "\<not> fault ev (tick ?b)" "txn ?b \<noteq> Failed" "current_tenant ?b = Some ?t"
    using assms(11,12) by (simp_all add: bound_to_def)
  have s: "searchLogs ev ?b ?v =
             (Inl Invalid_Parameter,
              fail_txn (?b\<lparr>journal := journal ?b @ [Query (count_statement (searchLogs_count ev ?v))]\<rparr>))"
    by (rule searchLogs_invalid_metadata[OF _ assms(5,6) b]) simp
  have h: "auditRoutes ev req True ?b =
             (Failure 500 ''Query failed'',
              fail_txn (?b\<lparr>journal := journal ?b @ [Query (count_statement (searchLogs_count ev ?v))]\<rparr>))"
    using assms(1,2) valid s by (simp add: auditRoutes_def get_logs_search_def)
  from audit_bound[OF a ne assms(10,12,11) h] valid show ?thesis
    by (simp add: release_def respond_def bound_to_def)
qed

lemma unquoted_metadata_facts:
  "http_method search_unquoted_metadata = GET" "path search_unquoted_metadata = Logs_Search"
  "query_string search_unquoted_metadata
     = (''metadata'', JStr ''{device:Android}'') # [(''comp_code'', JStr ''COMP001'')]"
  by (simp_all add: search_unquoted_metadata_def)

theorem invalid_metadata_is_a_storage_error_witness:
  "json_parse ''{device:Android}'' = None
   \<and> searchSchema_parse example_env (query_string search_unquoted_metadata)
        = Some \<lparr> q_comp_code = ''COMP001'', q_limit = 50, q_offset = 0, q_from = None, q_to = None,
                 sf_source_app = None, sf_source_function = None, sf_reference_id = None,
                 sf_created_by = None, sf_action = None, sf_metadata = Some ''{device:Android}'' \<rparr>
   \<and> answered (audit example_env search_unquoted_metadata pooled_client)
        = Some (Failure 500 ''Query failed'')"
proof -
  let ?v = "\<lparr> q_comp_code = ''COMP001'', q_limit = 50, q_offset = 0, q_from = None, q_to = None,
               sf_source_app = None, sf_source_function = None, sf_reference_id = None,
               sf_created_by = None, sf_action = None, sf_metadata = None \<rparr>"
  have v: "searchSchema_parse example_env [(''comp_code'', JStr ''COMP001'')] = Some ?v"
    by code_simp
  have j: "json_parse ''{device:Android}'' = None" by code_simp
  have ne: "''{device:Android}'' \<noteq> []" by simp
  have k: "x_api_key search_unquoted_metadata = Some ''super-secret-key-comp001-2026''"
          "''super-secret-key-comp001-2026'' \<noteq> []"
          "API_KEYS example_env (q_comp_code ?v) = Some ''super-secret-key-comp001-2026''"
          "CHR 0x00 \<notin> set (q_comp_code ?v)"
          "\<forall>n. \<not> fault example_env n" "txn pooled_client \<noteq> Failed"
    by (simp_all add: search_unquoted_metadata_def example_env_def pooled_client_def)
  from invalid_metadata_is_a_storage_error[OF unquoted_metadata_facts v ne j k] j
  show ?thesis by simp
qed

text \<open>
  C10 as stated fails for the empty string: it is not JSON, the schema accepts it, and
  \<open>if (metadata)\<close> leaves it out of the query; the request is answered with a page.
\<close>

theorem empty_metadata_counterexample:
  "json_parse [] = None
   \<and> map_of (query_string search_empty_metadata) ''metadata'' = Some (JStr [])
   \<and> answered (audit example_env search_empty_metadata pooled_client)
        = Some (Page [row_c, row_a] 2 2 50 0)"
  by code_simp

end
